theory Spec2Isabelle
  imports Main "HOL-Library.Word"
begin

section \<open>Errors raised by the library\<close>

text \<open>
  Every exception type of the modelled sources is a constructor; a function that can
  throw returns \<open>error + 'a\<close> with \<open>Inl\<close> for the exception.
\<close>

datatype error =
    unknown_type
  | type_mismatch
  | no_control
  | no_event
  | no_threads
  | already_active
  | no_active_task
  | event_queue_destroyed
  | event_handler_not_found
  | handler_exception nat

section \<open>i\_simple\_variant: the comparison operators\<close>

datatype simple_variant_type =
  Empty | Boolean | Integer | Real | String | Enum | CustomType | COUNT

text \<open>
  A variant holds exactly one alternative. The payload types of the real, string, enum
  and custom alternatives (\<open>double\<close>, \<open>i_string\<close>, \<open>i_enum\<close>,
  \<open>i_custom_type\<close>) are declared outside the modelled sources, so they are type
  parameters here.
\<close>

datatype ('r, 's, 'e, 'c) i_simple_variant =
    VEmpty
  | VBoolean bool
  | VInteger "64 word"
  | VReal 'r
  | VString 's
  | VEnum 'e
  | VCustomType 'c

fun type_of :: "('r, 's, 'e, 'c) i_simple_variant \<Rightarrow> simple_variant_type" where
  "type_of VEmpty = Empty"
| "type_of (VBoolean b) = Boolean"
| "type_of (VInteger i) = Integer"
| "type_of (VReal r) = Real"
| "type_of (VString s) = String"
| "type_of (VEnum e) = Enum"
| "type_of (VCustomType c) = CustomType"

text \<open>
  The comparison operators of the payload types are not part of the modelled sources:
  they are the fields of \<open>payload_ops\<close>. \<open>bool\<close> and \<open>int64_t\<close> are compared
  by the language.
\<close>

record ('r, 's, 'e, 'c) payload_ops =
  real_eq :: "'r \<Rightarrow> 'r \<Rightarrow> bool"
  real_ne :: "'r \<Rightarrow> 'r \<Rightarrow> bool"
  string_eq :: "'s \<Rightarrow> 's \<Rightarrow> bool"
  string_ne :: "'s \<Rightarrow> 's \<Rightarrow> bool"
  enum_eq :: "'e \<Rightarrow> 'e \<Rightarrow> bool"
  custom_eq :: "'c \<Rightarrow> 'c \<Rightarrow> bool"
  custom_ne :: "'c \<Rightarrow> 'c \<Rightarrow> bool"

text \<open>\<open>operator==(const i_simple_variant&, const i_simple_variant&)\<close>\<close>

definition variant_eq ::
  "('r, 's, 'e, 'c) payload_ops \<Rightarrow> ('r, 's, 'e, 'c) i_simple_variant \<Rightarrow>
   ('r, 's, 'e, 'c) i_simple_variant \<Rightarrow> error + bool" where
  "variant_eq ops lhs rhs =
     (if type_of lhs \<noteq> type_of rhs then Inr False
      else case (lhs, rhs) of
          (VEmpty, _) \<Rightarrow> Inr True
        | (VBoolean a, VBoolean b) \<Rightarrow> Inr (a = b)
        | (VInteger a, VInteger b) \<Rightarrow> Inr (a = b)
        | (VReal a, VReal b) \<Rightarrow> Inr (real_eq ops a b)
        | (VString a, VString b) \<Rightarrow> Inr (string_eq ops a b)
        | (VEnum a, VEnum b) \<Rightarrow> Inr (enum_eq ops a b)
        | (VCustomType a, VCustomType b) \<Rightarrow> Inr (custom_eq ops a b)
        | _ \<Rightarrow> Inl unknown_type)"

text \<open>
  \<open>operator!=(const i_simple_variant&, const i_simple_variant&)\<close>: the switch has
  no \<open>Enum\<close> case, so two enum variants reach \<open>default\<close> and throw.
\<close>

definition variant_ne ::
  "('r, 's, 'e, 'c) payload_ops \<Rightarrow> ('r, 's, 'e, 'c) i_simple_variant \<Rightarrow>
   ('r, 's, 'e, 'c) i_simple_variant \<Rightarrow> error + bool" where
  "variant_ne ops lhs rhs =
     (if type_of lhs \<noteq> type_of rhs then Inr True
      else case (lhs, rhs) of
          (VEmpty, _) \<Rightarrow> Inr False
        | (VBoolean a, VBoolean b) \<Rightarrow> Inr (a \<noteq> b)
        | (VInteger a, VInteger b) \<Rightarrow> Inr (a \<noteq> b)
        | (VReal a, VReal b) \<Rightarrow> Inr (real_ne ops a b)
        | (VString a, VString b) \<Rightarrow> Inr (string_ne ops a b)
        | (VCustomType a, VCustomType b) \<Rightarrow> Inr (custom_ne ops a b)
        | _ \<Rightarrow> Inl unknown_type)"

text \<open>The payload operators \<open>!=\<close> agree with the negation of \<open>==\<close>.\<close>

definition consistent_ops :: "('r, 's, 'e, 'c) payload_ops \<Rightarrow> bool" where
  "consistent_ops ops \<longleftrightarrow>
     (\<forall>a b. real_ne ops a b = (\<not> real_eq ops a b)) \<and>
     (\<forall>a b. string_ne ops a b = (\<not> string_eq ops a b)) \<and>
     (\<forall>a b. custom_ne ops a b = (\<not> custom_eq ops a b))"

definition plain_ops :: "(int, string, nat, nat) payload_ops" where
  "plain_ops =
     \<lparr> real_eq = (\<lambda>a b. a = b), real_ne = (\<lambda>a b. a \<noteq> b),
       string_eq = (\<lambda>a b. a = b), string_ne = (\<lambda>a b. a \<noteq> b),
       enum_eq = (\<lambda>a b. a = b),
       custom_eq = (\<lambda>a b. a = b), custom_ne = (\<lambda>a b. a \<noteq> b) \<rparr>"

section \<open>event\_handle and its control block\<close>

type_synonym cookie = nat

text \<open>
  \<open>event_control\<close>: \<open>iEvent\<close> is the pointer to the event (\<open>None\<close> once the
  event has reset the block, so \<open>valid()\<close> is false), \<open>iRefCount\<close> the 32-bit
  reference count. Control blocks live on the heap and are shared by the handles that
  point to them: \<open>control_heap\<close> maps an address to the block stored there, and an
  address outside its domain is a block that has been deleted.
\<close>

record event_control =
  iEvent :: "nat option"
  iRefCount :: "32 word"

type_synonym control_heap = "nat \<rightharpoonup> event_control"

definition valid :: "event_control \<Rightarrow> bool" where
  "valid c \<longleftrightarrow> iEvent c \<noteq> None"

text \<open>\<open>event_control::add_ref\<close> and \<open>event_control::release\<close> (which deletes the
  block when the count reaches zero) on the block at address \<open>a\<close>.\<close>

definition control_add_ref :: "nat \<Rightarrow> control_heap \<Rightarrow> control_heap" where
  "control_add_ref a heap =
     (case heap a of
        None \<Rightarrow> heap
      | Some c \<Rightarrow> heap(a \<mapsto> c\<lparr>iRefCount := iRefCount c + 1\<rparr>))"

definition control_release :: "nat \<Rightarrow> control_heap \<Rightarrow> control_heap" where
  "control_release a heap =
     (case heap a of
        None \<Rightarrow> heap
      | Some c \<Rightarrow>
          (if iRefCount c - 1 = 0 then heap(a := None)
           else heap(a \<mapsto> c\<lparr>iRefCount := iRefCount c - 1\<rparr>)))"

text \<open>
  \<open>event_handle\<close>: \<open>iControl\<close> is the pointer to the control block (\<open>None\<close> for
  \<open>nullptr\<close>), \<open>iRef\<close> the cookie reference (\<open>None\<close> after \<open>iRef.reset()\<close>),
  \<open>iPrimary\<close> the flag that the constructor taking a control block and a cookie sets.
\<close>

record event_handle =
  iControl :: "nat option"
  iRef :: "cookie option"
  iPrimary :: bool

definition have_control :: "event_handle \<Rightarrow> bool" where
  "have_control h \<longleftrightarrow> iControl h \<noteq> None"

definition primary :: "event_handle \<Rightarrow> bool" where
  "primary h = iPrimary h"

text \<open>\<open>event_handle(i_event_control&, cookie)\<close>\<close>

definition handle_new :: "nat \<Rightarrow> cookie \<Rightarrow> control_heap \<Rightarrow> event_handle \<times> control_heap" where
  "handle_new a aId heap =
     (\<lparr>iControl = Some a, iRef = Some aId, iPrimary = True\<rparr>, control_add_ref a heap)"

text \<open>\<open>event_handle(const event_handle&)\<close>\<close>

definition handle_copy :: "event_handle \<Rightarrow> control_heap \<Rightarrow> event_handle \<times> control_heap" where
  "handle_copy aOther heap =
     (\<lparr>iControl = iControl aOther, iRef = iRef aOther, iPrimary = False\<rparr>,
      (case iControl aOther of None \<Rightarrow> heap | Some a \<Rightarrow> control_add_ref a heap))"

text \<open>
  \<open>event_handle(event_handle&&)\<close>: returns the new handle, the moved-from handle
  and the heap.
\<close>

definition handle_move ::
  "event_handle \<Rightarrow> control_heap \<Rightarrow> event_handle \<times> event_handle \<times> control_heap" where
  "handle_move aOther heap =
     (\<lparr>iControl = iControl aOther, iRef = iRef aOther, iPrimary = False\<rparr>,
      aOther\<lparr>iPrimary := False\<rparr>,
      (case iControl aOther of None \<Rightarrow> heap | Some a \<Rightarrow> control_add_ref a heap))"

text \<open>
  The body of \<open>~event_handle()\<close>: the handle as the body leaves it and the heap.
  With a control block, \<open>iRef.reset()\<close> runs when the block is not valid or the handle
  is primary; then the block is released. A handle whose control pointer names a
  deleted block has no defined behaviour: the result is \<open>None\<close>.
\<close>

definition handle_destroy ::
  "event_handle \<Rightarrow> control_heap \<Rightarrow> (event_handle \<times> control_heap) option" where
  "handle_destroy h heap =
     (case iControl h of
        None \<Rightarrow> Some (h, heap)
      | Some a \<Rightarrow>
          (case heap a of
             None \<Rightarrow> None
           | Some c \<Rightarrow>
               Some ((if \<not> valid c \<or> primary h then h\<lparr>iRef := None\<rparr> else h),
                     control_release a heap)))"

definition heap0 :: control_heap where
  "heap0 = [0 \<mapsto> \<lparr>iEvent = Some 0, iRefCount = 1\<rparr>]"

section \<open>The thread pool\<close>

subsection \<open>State\<close>

text \<open>
  A task is named by its pointer. A worker (\<open>thread_pool_thread\<close>) owns the deque
  \<open>iWaitingTasks\<close> of (task, priority) entries, the active task and its stop flag.
  Priorities are \<open>int32_t\<close>: 32-bit words read as signed by \<open>sint\<close>.
\<close>

type_synonym task_pointer = nat
type_synonym task_queue_entry = "task_pointer \<times> 32 word"
type_synonym task_queue = "task_queue_entry list"

record thread_pool_thread =
  iWaitingTasks :: task_queue
  iActiveTask :: "task_pointer option"
  iStopped :: bool

text \<open>
  The pool: its workers in creation order, \<open>iMaxThreads\<close>, the idle flag and the
  pool's own stop flag (\<open>thread_pool::iStopped\<close>, here \<open>iPoolStopped\<close>).
  \<open>std::size_t\<close> values are natural numbers. Every operation below runs under the
  pool's recursive mutex, so it is one atomic step on this state.
\<close>

record thread_pool =
  iThreads :: "thread_pool_thread list"
  iMaxThreads :: nat
  iIdle :: bool
  iPoolStopped :: bool

text \<open>The worker the constructor \<open>thread_pool_thread(thread_pool&)\<close> builds.\<close>

definition new_thread :: thread_pool_thread where
  "new_thread = \<lparr>iWaitingTasks = [], iActiveTask = None, iStopped = False\<rparr>"

definition active :: "thread_pool_thread \<Rightarrow> bool" where
  "active t \<longleftrightarrow> iActiveTask t \<noteq> None"

definition idle :: "thread_pool_thread \<Rightarrow> bool" where
  "idle t \<longleftrightarrow> iActiveTask t = None \<and> iWaitingTasks t = []"

definition max_threads :: "thread_pool \<Rightarrow> nat" where
  "max_threads P = iMaxThreads P"

definition stopped :: "thread_pool \<Rightarrow> bool" where
  "stopped P = iPoolStopped P"

text \<open>\<open>thread_pool::update_idle\<close>, \<open>thread_gone_idle\<close> and \<open>thread_gone_busy\<close>
  (the notifications of the wait condition change no state).\<close>

definition update_idle :: "thread_pool \<Rightarrow> thread_pool" where
  "update_idle P = P\<lparr>iIdle := list_all idle (iThreads P)\<rparr>"

definition thread_gone_idle :: "thread_pool \<Rightarrow> thread_pool" where
  "thread_gone_idle P = update_idle P"

definition thread_gone_busy :: "thread_pool \<Rightarrow> thread_pool" where
  "thread_gone_busy P = update_idle P"

subsection \<open>reserve\<close>

text \<open>
  \<open>thread_pool::reserve\<close>: the assignment of \<open>iMaxThreads\<close>, then the loop that
  appends workers while there are fewer than \<open>iMaxThreads\<close>.
\<close>

function reserve_loop :: "thread_pool \<Rightarrow> thread_pool" where
  "reserve_loop P =
     (if length (iThreads P) < iMaxThreads P
      then reserve_loop (P\<lparr>iThreads := iThreads P @ [new_thread]\<rparr>)
      else P)"
  by pat_completeness auto
termination
  by (relation "measure (\<lambda>P. iMaxThreads P - length (iThreads P))") auto

declare reserve_loop.simps [simp del]

definition reserve :: "nat \<Rightarrow> thread_pool \<Rightarrow> thread_pool" where
  "reserve aMaxThreads P = reserve_loop (P\<lparr>iMaxThreads := aMaxThreads\<rparr>)"

text \<open>The pool the constructor leaves, for \<open>hardware_concurrency() = n\<close>.\<close>

definition new_pool :: "nat \<Rightarrow> thread_pool" where
  "new_pool n =
     reserve n \<lparr>iThreads = [], iMaxThreads = 0, iIdle = True, iPoolStopped = False\<rparr>"

subsection \<open>Workers: add, next\_task, steal\_work\<close>

text \<open>
  \<open>std::upper_bound\<close> with the comparator \<open>aLeft.second > aRight.second\<close>, called
  with the new priority as value: the position of the first entry whose priority is
  less than the new one (the end when there is none). The standard defines it for a
  queue partitioned by that test, which a queue in non-increasing priority order is.
\<close>

fun upper_bound :: "task_queue \<Rightarrow> 32 word \<Rightarrow> nat" where
  "upper_bound [] aPriority = 0"
| "upper_bound (e # es) aPriority =
     (if sint aPriority > sint (snd e) then 0 else Suc (upper_bound es aPriority))"

definition emplace :: "task_queue \<Rightarrow> nat \<Rightarrow> task_queue_entry \<Rightarrow> task_queue" where
  "emplace q k e = take k q @ e # drop k q"

lemma emplace_not_Nil [simp]: "emplace q k e \<noteq> []"
  by (simp add: emplace_def)

definition set_thread :: "nat \<Rightarrow> thread_pool_thread \<Rightarrow> thread_pool \<Rightarrow> thread_pool" where
  "set_thread i t P = P\<lparr>iThreads := (iThreads P)[i := t]\<rparr>"

text \<open>
  The methods of a worker call each other through the pool (\<open>add\<close> calls
  \<open>next_task\<close>, which asks the pool to steal, which makes a victim \<open>add\<close> to the
  idle worker), so they are one mutually recursive definition on the pool state; a
  worker is named by its index in \<open>iThreads\<close>, and only indices of existing workers
  occur in the source (for another index the pool is returned as it is).
  \<^item> \<open>next_task i\<close> is \<open>thread_pool_thread::next_task\<close> of worker \<open>i\<close>;
  \<^item> \<open>steal_work i\<close> is \<open>thread_pool::steal_work\<close> for the idle worker
    \<open>i\<close>, and \<open>steal_work_from j i\<close> its loop from worker \<open>j\<close> on;
  \<^item> \<open>thread_steal_work j i\<close> is \<open>thread_pool_thread::steal_work\<close> of worker
    \<open>j\<close>, returning whether an entry was moved;
  \<^item> \<open>add i\<close> is \<open>thread_pool_thread::add\<close> of worker \<open>i\<close>.
\<close>

function next_task :: "nat \<Rightarrow> thread_pool \<Rightarrow> error + thread_pool"
  and steal_work :: "nat \<Rightarrow> thread_pool \<Rightarrow> error + thread_pool"
  and steal_work_from :: "nat \<Rightarrow> nat \<Rightarrow> thread_pool \<Rightarrow> error + thread_pool"
  and thread_steal_work :: "nat \<Rightarrow> nat \<Rightarrow> thread_pool \<Rightarrow> error + bool \<times> thread_pool"
  and add :: "nat \<Rightarrow> task_pointer \<Rightarrow> 32 word \<Rightarrow> thread_pool \<Rightarrow> error + thread_pool"
where
  "next_task i P =
     (if \<not> i < length (iThreads P) then Inr P
      else if active (iThreads P ! i) then Inl already_active
      else case (if iWaitingTasks (iThreads P ! i) = []
                 then steal_work i P else Inr P) of
             Inl e \<Rightarrow> Inl e
           | Inr P1 \<Rightarrow>
               (case iWaitingTasks (iThreads P1 ! i) of
                  [] \<Rightarrow> Inr (thread_gone_idle P1)
                | front # rest \<Rightarrow>
                    Inr (thread_gone_busy
                      (set_thread i
                        ((iThreads P1 ! i)\<lparr>iActiveTask := Some (fst front),
                                             iWaitingTasks := rest\<rparr>) P1))))"
| "steal_work i P =
     (if iThreads P = [] then Inl no_threads else steal_work_from 0 i P)"
| "steal_work_from j i P =
     (if \<not> j < length (iThreads P) then Inr P
      else if j = i then steal_work_from (Suc j) i P
      else case thread_steal_work j i P of
             Inl e \<Rightarrow> Inl e
           | Inr (True, P1) \<Rightarrow> Inr P1
           | Inr (False, P1) \<Rightarrow> steal_work_from (Suc j) i P)"
| "thread_steal_work j i P =
     (if \<not> j < length (iThreads P) then Inr (False, P)
      else case iWaitingTasks (iThreads P ! j) of
             [] \<Rightarrow> Inr (False, P)
           | newTask # rest \<Rightarrow>
               (case add i (fst newTask) (snd newTask)
                       (set_thread j ((iThreads P ! j)\<lparr>iWaitingTasks := rest\<rparr>) P) of
                  Inl e \<Rightarrow> Inl e
                | Inr P1 \<Rightarrow> Inr (True, P1)))"
| "add i aTask aPriority P =
     (if \<not> i < length (iThreads P) then Inr P
      else let q = iWaitingTasks (iThreads P ! i);
               P1 = set_thread i
                      ((iThreads P ! i)\<lparr>iWaitingTasks :=
                          emplace q (upper_bound q aPriority) (aTask, aPriority)\<rparr>) P
           in if \<not> active (iThreads P1 ! i) then next_task i P1 else Inr P1)"
  by pat_completeness auto

termination
  apply (relation "measures
    [\<lambda>x. case x of
        Inl (Inl (i, P)) \<Rightarrow> if iWaitingTasks (iThreads P ! i) = [] then 1 else 0
      | Inl (Inr (i, P)) \<Rightarrow> if iWaitingTasks (iThreads P ! i) = [] then 1 else 0
      | Inr (Inl (j, i, P)) \<Rightarrow> if iWaitingTasks (iThreads P ! i) = [] then 1 else 0
      | Inr (Inr (Inl (j, i, P))) \<Rightarrow> if iWaitingTasks (iThreads P ! i) = [] then 1 else 0
      | Inr (Inr (Inr (i, t, p, P))) \<Rightarrow> 0,
     \<lambda>x. case x of
        Inl (Inl (i, P)) \<Rightarrow> if iWaitingTasks (iThreads P ! i) = [] then 5 else 0
      | Inl (Inr (i, P)) \<Rightarrow> 4
      | Inr (Inl (j, i, P)) \<Rightarrow> 3
      | Inr (Inr (Inl (j, i, P))) \<Rightarrow> 2
      | Inr (Inr (Inr (i, t, p, P))) \<Rightarrow> 1,
     \<lambda>x. case x of
        Inr (Inl (j, i, P)) \<Rightarrow> length (iThreads P) - j
      | _ \<Rightarrow> 0]")
   apply (auto simp: set_thread_def)
  done

declare next_task.simps [simp del] steal_work.simps [simp del]
  steal_work_from.simps [simp del] thread_steal_work.simps [simp del] add.simps [simp del]

subsection \<open>exec\<close>

text \<open>
  \<open>thread_pool_thread::release\<close>: clears the active task; throws when there is none.
\<close>

definition release :: "nat \<Rightarrow> thread_pool \<Rightarrow> error + thread_pool" where
  "release i P =
     (case iActiveTask (iThreads P ! i) of
        None \<Rightarrow> Inl no_active_task
      | Some currentTask \<Rightarrow> Inr (set_thread i ((iThreads P ! i)\<lparr>iActiveTask := None\<rparr>) P))"

text \<open>
  A task (\<open>i_task\<close>) is implemented outside the modelled sources: \<open>cancelled\<close> reads
  its cancellation flag from its state and \<open>run\<close> is what running it does to its
  state; both are parameters. \<open>tasks\<close> holds the state of every task, \<open>run_calls\<close>
  the tasks whose \<open>run\<close> has been called, in order.
\<close>

record 's exec_state =
  pool :: thread_pool
  tasks :: "task_pointer \<Rightarrow> 's"
  run_calls :: "task_pointer list"

text \<open>
  One round of the loop of \<open>thread_pool_thread::exec\<close> of worker \<open>i\<close>, from the
  wait on the condition variable on: \<open>Blocked\<close> when the wait does not return (no
  active task and not stopped), \<open>Returned\<close> when the worker is stopped, \<open>Looping\<close>
  after a task has been run or skipped, released and the next one promoted.
\<close>

datatype exec_outcome = Blocked | Returned | Looping

definition exec_round ::
  "('s \<Rightarrow> bool) \<Rightarrow> ('s \<Rightarrow> 's) \<Rightarrow> nat \<Rightarrow> 's exec_state \<Rightarrow> error + exec_outcome \<times> 's exec_state" where
  "exec_round cancelled run i S =
     (let t = iThreads (pool S) ! i
      in if iStopped t then Inr (Returned, S)
         else case iActiveTask t of
                None \<Rightarrow> Inr (Blocked, S)
              | Some a \<Rightarrow>
                  let S1 = (if \<not> cancelled (tasks S a)
                            then S\<lparr>tasks := (tasks S)(a := run (tasks S a)),
                                   run_calls := run_calls S @ [a]\<rparr>
                            else S)
                  in case release i (pool S1) of
                       Inl e \<Rightarrow> Inl e
                     | Inr P1 \<Rightarrow>
                         (case next_task i P1 of
                            Inl e \<Rightarrow> Inl e
                          | Inr P2 \<Rightarrow> Inr (Looping, S1\<lparr>pool := P2\<rparr>)))"

subsection \<open>start\<close>

text \<open>
  The loop of \<open>thread_pool::start\<close> looks for the first worker, in creation order,
  whose \<open>active()\<close> is false: \<open>first_inactive ts k\<close> is its index, counted from
  \<open>k\<close> for the first worker of \<open>ts\<close>.
\<close>

fun first_inactive :: "thread_pool_thread list \<Rightarrow> nat \<Rightarrow> nat option" where
  "first_inactive [] k = None"
| "first_inactive (t # ts) k = (if \<not> active t then Some k else first_inactive ts (Suc k))"

definition start :: "task_pointer \<Rightarrow> 32 word \<Rightarrow> thread_pool \<Rightarrow> error + thread_pool" where
  "start aTask aPriority P =
     (if stopped P then Inr P
      else if iThreads P = [] then Inl no_threads
      else case first_inactive (iThreads P) 0 of
             Some k \<Rightarrow> add k aTask aPriority P
           | None \<Rightarrow> add 0 aTask aPriority P)"

text \<open>A queue in non-increasing priority order.\<close>

definition sorted_queue :: "task_queue \<Rightarrow> bool" where
  "sorted_queue q = sorted_wrt (\<lambda>a b. sint (snd b) \<le> sint (snd a)) q"

text \<open>Example pools: one busy worker with two waiting tasks; two workers, the first one
  busy.\<close>

definition busy_pool :: thread_pool where
  "busy_pool =
     \<lparr>iThreads = [\<lparr>iWaitingTasks = [(2, 5), (1, 1)], iActiveTask = Some 0, iStopped = False\<rparr>],
      iMaxThreads = 1, iIdle = False, iPoolStopped = False\<rparr>"

definition two_pool :: thread_pool where
  "two_pool =
     \<lparr>iThreads = [\<lparr>iWaitingTasks = [], iActiveTask = Some 0, iStopped = False\<rparr>, new_thread],
      iMaxThreads = 2, iIdle = False, iPoolStopped = False\<rparr>"

definition released_pool :: thread_pool where
  "released_pool =
     \<lparr>iThreads = [\<lparr>iWaitingTasks = [(2, 5), (3, 3), (1, 1)], iActiveTask = None,
                   iStopped = False\<rparr>],
      iMaxThreads = 1, iIdle = False, iPoolStopped = False\<rparr>"

text \<open>A task state for the examples: the cancellation flag and whether \<open>run\<close> has
  completed.\<close>

record task_state =
  cancel_flag :: bool
  has_run :: bool

definition cancelled_pool :: "task_state exec_state" where
  "cancelled_pool =
     \<lparr>pool = \<lparr>iThreads = [\<lparr>iWaitingTasks = [], iActiveTask = Some 0, iStopped = False\<rparr>],
               iMaxThreads = 1, iIdle = False, iPoolStopped = False\<rparr>,
      tasks = (\<lambda>t. \<lparr>cancel_flag = True, has_run = False\<rparr>),
      run_calls = []\<rparr>"

section \<open>The event system\<close>

subsection \<open>State\<close>

datatype event_trigger_type =
  Default | Synchronous | SynchronousDontQueue | Asynchronous | AsynchronousDontQueue

text \<open>
  \<open>event::handler\<close>. \<open>queue\<close> is the pointer to the handler's async queue,
  \<open>queueDestroyed\<close> the destroyed-flag watching that queue, \<open>callable\<close> the identity
  of the callable (what it does when called is given by a \<open>behaviour\<close>, below).
\<close>

record handler =
  queue :: nat
  queueDestroyed :: bool
  referenceCount :: "32 word"
  clientId :: nat
  callable :: nat
  handleInSameThreadAsEmitter :: bool
  handlerIsStateless :: bool
  triggerId :: "64 word"

text \<open>\<open>event::context\<close>, here \<open>event_context\<close> (its \<open>handlersChanged\<close> is
  \<open>ctxHandlersChanged\<close>).\<close>

record event_context =
  accepted :: bool
  ctxHandlersChanged :: bool

text \<open>\<open>event::instance_data\<close> (its \<open>triggerId\<close> is \<open>instTriggerId\<close> here).\<close>

record instance_data =
  ignoreErrors :: bool
  triggerType :: event_trigger_type
  handlers :: "(cookie \<times> handler) list"
  contexts :: "event_context list"
  triggering :: bool
  instTriggerId :: "64 word"
  handlersChanged :: bool
  filterCount :: "32 word"

text \<open>
  What a trigger leaves behind for an observer: \<open>Dispatch tid c\<close> when the loop of a
  trigger with id \<open>tid\<close> hands the handler with cookie \<open>c\<close> to \<open>enqueue\<close>,
  \<open>Invoke f\<close> when the callable \<open>f\<close> is called inline.
\<close>

datatype trace_event = Dispatch "64 word" cookie | Invoke nat

text \<open>
  One event and what surrounds it:
  \<^item> \<open>has_instance\<close>, \<open>inst\<close>, \<open>iNextCookie\<close>: the event's lazily created instance
    data and its cookie counter; \<open>destroyed\<close>: the event has been destroyed (what a
    \<open>destroyed_flag\<close> on the event reads);
  \<^item> \<open>emitterQueue\<close>: \<open>async_event_queue::instance()\<close>, the queue of the thread that
    runs the trigger;
  \<^item> \<open>filterCallable\<close>: \<open>filter_event\<close> of the filter registry, which is not part of
    the modelled sources: what the registered filters do, in order, is the behaviour
    of this callable;
  \<^item> \<open>enqueued\<close>: the calls of \<open>async_event_queue::enqueue\<close> made so far, each with
    its queue, callable, stateless flag and the transaction it returned, and
    \<open>iNextTransaction\<close>, the next fresh transaction id;
  \<^item> \<open>trace\<close>: the dispatches and inline calls so far.
\<close>

record world =
  has_instance :: bool
  destroyed :: bool
  inst :: instance_data
  iNextCookie :: cookie
  emitterQueue :: nat
  filterCallable :: nat
  enqueued :: "(nat \<times> nat \<times> bool \<times> 64 word) list"
  iNextTransaction :: "64 word"
  trace :: "trace_event list"

text \<open>The instance data \<open>instance()\<close> creates on first use.\<close>

definition new_instance :: instance_data where
  "new_instance =
     \<lparr>ignoreErrors = False, triggerType = Default, handlers = [], contexts = [],
      triggering = False, instTriggerId = 0, handlersChanged = False, filterCount = 0\<rparr>"

text \<open>An event on which nothing has been called yet, on the thread with queue \<open>q\<close>.\<close>

definition new_world :: "nat \<Rightarrow> world" where
  "new_world q =
     \<lparr>has_instance = False, destroyed = False, inst = new_instance, iNextCookie = 0,
      emitterQueue = q, filterCallable = 0, enqueued = [], iNextTransaction = 0,
      trace = []\<rparr>"

subsection \<open>The operations that do not call handlers\<close>

definition filtered :: "world \<Rightarrow> bool" where
  "filtered W \<longleftrightarrow> filterCount (inst W) > 0"

text \<open>\<open>filter_added\<close>: \<open>instance()\<close> creates the instance data when there is none.\<close>

definition filter_added :: "world \<Rightarrow> world" where
  "filter_added W =
     W\<lparr>has_instance := True, inst := (inst W)\<lparr>filterCount := filterCount (inst W) + 1\<rparr>\<rparr>"

definition push_context :: "world \<Rightarrow> world" where
  "push_context W =
     W\<lparr>inst := (inst W)\<lparr>contexts :=
        contexts (inst W) @ [\<lparr>accepted = False, ctxHandlersChanged = False\<rparr>]\<rparr>\<rparr>"

definition pop_context :: "world \<Rightarrow> world" where
  "pop_context W = W\<lparr>inst := (inst W)\<lparr>contexts := butlast (contexts (inst W))\<rparr>\<rparr>"

text \<open>\<open>instance().contexts.back().accepted\<close>; the sources read it only after a
  \<open>push_context\<close>.\<close>

definition back_accepted :: "world \<Rightarrow> bool" where
  "back_accepted W \<longleftrightarrow> contexts (inst W) \<noteq> [] \<and> accepted (last (contexts (inst W)))"

definition set_back_accepted :: "bool \<Rightarrow> world \<Rightarrow> world" where
  "set_back_accepted b W =
     W\<lparr>inst := (inst W)\<lparr>contexts :=
        butlast (contexts (inst W)) @ [(last (contexts (inst W)))\<lparr>accepted := b\<rparr>]\<rparr>\<rparr>"

definition ignore_errors :: "world \<Rightarrow> world" where
  "ignore_errors W = W\<lparr>has_instance := True, inst := (inst W)\<lparr>ignoreErrors := True\<rparr>\<rparr>"

definition set_trigger_type :: "event_trigger_type \<Rightarrow> world \<Rightarrow> world" where
  "set_trigger_type t W = W\<lparr>has_instance := True, inst := (inst W)\<lparr>triggerType := t\<rparr>\<rparr>"

definition invalidate_handler_list :: "world \<Rightarrow> world" where
  "invalidate_handler_list W =
     W\<lparr>has_instance := True,
       inst := (inst W)\<lparr>handlersChanged := True,
                 contexts := map (\<lambda>c. c\<lparr>ctxHandlersChanged := True\<rparr>) (contexts (inst W))\<rparr>\<rparr>"

text \<open>
  \<open>subscribe(aCallable, aUniqueId)\<close>: the new handler gets the next cookie and the
  queue of the subscribing thread and goes to the end of the list. (The handler's
  constructor does not initialise \<open>handlerIsStateless\<close>; the model takes false.)
\<close>

definition new_handler :: "nat \<Rightarrow> nat \<Rightarrow> nat \<Rightarrow> handler" where
  "new_handler q aClientId aCallable =
     \<lparr>queue = q, queueDestroyed = False, referenceCount = 0, clientId = aClientId,
      callable = aCallable, handleInSameThreadAsEmitter = False,
      handlerIsStateless = False, triggerId = 0\<rparr>"

definition subscribe :: "nat \<Rightarrow> nat \<Rightarrow> world \<Rightarrow> world" where
  "subscribe aCallable aUniqueId W =
     (let W1 = invalidate_handler_list W;
          id = iNextCookie W1 + 1
      in W1\<lparr>iNextCookie := id,
             inst := (inst W1)\<lparr>handlers :=
               handlers (inst W1) @ [(id, new_handler (emitterQueue W1) aUniqueId aCallable)]\<rparr>\<rparr>)"

text \<open>\<open>find_handler\<close>: the position of the first handler with the cookie.\<close>

fun find_handler :: "(cookie \<times> handler) list \<Rightarrow> cookie \<Rightarrow> nat option" where
  "find_handler [] aHandleId = None"
| "find_handler (h # hs) aHandleId =
     (if fst h = aHandleId then Some 0 else map_option Suc (find_handler hs aHandleId))"

definition erase_at :: "nat \<Rightarrow> 'a list \<Rightarrow> 'a list" where
  "erase_at k xs = take k xs @ drop (Suc k) xs"

text \<open>
  \<open>unsubscribe(event_handle)\<close> erases the position \<open>find_handler\<close> returns; for a
  cookie that is not in the list that is \<open>erase(end())\<close>, which has no defined
  behaviour: the result is \<open>None\<close>.
\<close>

definition unsubscribe :: "cookie \<Rightarrow> world \<Rightarrow> world option" where
  "unsubscribe aHandleId W =
     (let W1 = invalidate_handler_list W
      in case find_handler (handlers (inst W1)) aHandleId of
           None \<Rightarrow> None
         | Some k \<Rightarrow> Some (W1\<lparr>inst := (inst W1)\<lparr>handlers := erase_at k (handlers (inst W1))\<rparr>\<rparr>))"

text \<open>\<open>unsubscribe(const void* aClientId)\<close>\<close>

definition unsubscribe_client :: "nat \<Rightarrow> world \<Rightarrow> world" where
  "unsubscribe_client aClientId W =
     (let W1 = invalidate_handler_list W
      in W1\<lparr>inst := (inst W1)\<lparr>handlers :=
            filter (\<lambda>h. clientId (snd h) \<noteq> aClientId) (handlers (inst W1))\<rparr>\<rparr>)"

text \<open>\<open>handle_in_same_thread_as_emitter(cookie)\<close>, through \<open>get_handler\<close>.\<close>

definition handle_in_same_thread_as_emitter :: "cookie \<Rightarrow> world \<Rightarrow> error + world" where
  "handle_in_same_thread_as_emitter aHandleId W =
     (case find_handler (handlers (inst W)) aHandleId of
        None \<Rightarrow> Inl event_handler_not_found
      | Some k \<Rightarrow>
          Inr (W\<lparr>inst := (inst W)\<lparr>handlers := (handlers (inst W))
                 [k := (fst (handlers (inst W) ! k),
                        (snd (handlers (inst W) ! k))\<lparr>handleInSameThreadAsEmitter := True\<rparr>)]\<rparr>\<rparr>))"

text \<open>
  The event's destructor: the instance data is gone and every \<open>destroyed_flag\<close> on
  the event reads true.
\<close>

definition destroy_event :: "world \<Rightarrow> world" where
  "destroy_event W = W\<lparr>has_instance := False, destroyed := True, inst := new_instance\<rparr>"

text \<open>
  Modelled from the spec: \<open>unqueue_event\<close> and \<open>async_event_queue::enqueue\<close>, whose
  code is not part of the modelled sources. \<open>unqueue\<close> drops every pending entry of
  the event. \<open>enqueue\<close> appends an entry to the queue and returns its transaction: the
  prior transaction when one is supplied and the last entry of that queue carries
  it, a fresh id otherwise. (Coalescing of stateless entries changes only which
  arguments a pending entry holds, and the model has no arguments.)
\<close>

definition unqueue :: "world \<Rightarrow> world" where
  "unqueue W = W\<lparr>enqueued := []\<rparr>"

definition queue_enqueue ::
  "nat \<Rightarrow> nat \<Rightarrow> bool \<Rightarrow> 64 word option \<Rightarrow> world \<Rightarrow> 64 word \<times> world" where
  "queue_enqueue q aCallable aStateless aTransaction W =
     (let mine = filter (\<lambda>e. fst e = q) (enqueued W);
          reuse = (case aTransaction of
                     None \<Rightarrow> None
                   | Some t \<Rightarrow>
                       if mine \<noteq> [] \<and> snd (snd (snd (last mine))) = t then Some t else None)
      in case reuse of
           Some t \<Rightarrow> (t, W\<lparr>enqueued := enqueued W @ [(q, aCallable, aStateless, t)]\<rparr>)
         | None \<Rightarrow>
             (iNextTransaction W,
              W\<lparr>enqueued := enqueued W @ [(q, aCallable, aStateless, iNextTransaction W)],
                iNextTransaction := iNextTransaction W + 1\<rparr>))"

subsection \<open>Handlers as programs\<close>

text \<open>
  What a callable does to the event when it is called: a list of calls on the
  event's interface. \<open>Throw n\<close> is an exception leaving the callable,
  \<open>DestroyEvent\<close> the destruction of the event by the callable, which then returns
  (nothing may touch a destroyed event).
\<close>

datatype action =
    Accept
  | Ignore
  | Subscribe nat nat
  | Unsubscribe cookie
  | UnsubscribeClient nat
  | IgnoreErrors
  | SyncTrigger
  | Throw nat
  | DestroyEvent

text \<open>
  A \<open>behaviour\<close> gives, for a callable and the number of times it has been called
  before, what this call does: callables are closures with a state of their own.
\<close>

type_synonym behaviour = "nat \<Rightarrow> nat \<Rightarrow> action list"

text \<open>
  How a call ends: it returns a value, an exception leaves it, it runs into
  behaviour the language leaves undefined, or the model's fuel runs out (handlers
  that trigger or subscribe without end never return).
\<close>

datatype 'a result = Returns 'a | Throws error | Undefined | OutOfFuel

definition calls_before :: "nat \<Rightarrow> world \<Rightarrow> nat" where
  "calls_before f W = length (filter (\<lambda>e. e = Invoke f) (trace W))"

text \<open>
  \<open>scoped_flag\<close> is declared outside the modelled sources: its constructor saves the
  flag and may set it, its destructor restores the saved value. \<open>sf\<close>, a parameter
  of the model, is the value the constructor leaves in the flag.
\<close>

type_synonym scoped_flag = "bool \<Rightarrow> bool"

text \<open>The beginning of a trigger, after the \<open>scoped_flag\<close>: the reset of the ids when
  the event is not triggering yet, and the new trigger id.\<close>

definition enter_trigger :: "scoped_flag \<Rightarrow> world \<Rightarrow> world" where
  "enter_trigger sf W =
     (let I0 = (inst W)\<lparr>triggering := sf (triggering (inst W))\<rparr>;
          I1 = (if \<not> triggering I0
                then I0\<lparr>triggering := True, instTriggerId := 0,
                        handlers := map (\<lambda>(c, h). (c, h\<lparr>triggerId := 0\<rparr>)) (handlers I0)\<rparr>
                else I0)
      in W\<lparr>inst := I1\<lparr>instTriggerId := instTriggerId I1 + 1\<rparr>\<rparr>)"

text \<open>The destructor of the \<open>scoped_flag\<close>, on a live event.\<close>

definition leave_trigger :: "bool \<Rightarrow> world \<Rightarrow> world" where
  "leave_trigger saved W =
     (if destroyed W then W else W\<lparr>inst := (inst W)\<lparr>triggering := saved\<rparr>\<rparr>)"

definition set_triggerId :: "nat \<Rightarrow> 64 word \<Rightarrow> world \<Rightarrow> world" where
  "set_triggerId k tid W =
     W\<lparr>inst := (inst W)\<lparr>handlers := (handlers (inst W))
        [k := (fst (handlers (inst W) ! k), (snd (handlers (inst W) ! k))\<lparr>triggerId := tid\<rparr>)]\<rparr>\<rparr>"

definition log_event :: "trace_event \<Rightarrow> world \<Rightarrow> world" where
  "log_event e W = W\<lparr>trace := trace W @ [e]\<rparr>"

text \<open>The calls on the event that do not trigger it.\<close>

fun simple_action :: "action \<Rightarrow> world \<Rightarrow> unit result \<times> world" where
  "simple_action Accept W =
     (if contexts (inst W) = [] then (Undefined, W) else (Returns (), set_back_accepted True W))"
| "simple_action Ignore W =
     (if contexts (inst W) = [] then (Undefined, W) else (Returns (), set_back_accepted False W))"
| "simple_action (Subscribe f cid) W = (Returns (), subscribe f cid W)"
| "simple_action (Unsubscribe c) W =
     (case unsubscribe c W of None \<Rightarrow> (Undefined, W) | Some W1 \<Rightarrow> (Returns (), W1))"
| "simple_action (UnsubscribeClient cid) W = (Returns (), unsubscribe_client cid W)"
| "simple_action IgnoreErrors W = (Returns (), ignore_errors W)"
| "simple_action (Throw n) W = (Throws (handler_exception n), W)"
| "simple_action DestroyEvent W = (Returns (), destroy_event W)"
| "simple_action SyncTrigger W = (Returns (), W)"

subsection \<open>sync\_trigger\<close>

text \<open>
  \<open>sync_trigger\<close>, its loop over the handlers (\<open>trigger_loop\<close>, from index
  \<open>idx\<close>, for the trigger id \<open>tid\<close> and the transaction \<open>tr\<close>), \<open>enqueue\<close> and
  the calls a callable makes (\<open>run_script\<close>) call each other. The first argument is
  the fuel: every trigger and every round of the loop uses one unit.

  The model follows the triggering thread alone: a callable called inline runs to
  its end before the loop goes on, and nothing else acts on the event in between.
  The code releases the event mutex around that call, so in the program a trigger
  or a subscription of another thread can fall into it; such interleavings are not
  part of this model.
\<close>

function (sequential) sync_trigger :: "nat \<Rightarrow> scoped_flag \<Rightarrow> behaviour \<Rightarrow> world \<Rightarrow> bool result \<times> world"
  and trigger_loop ::
    "nat \<Rightarrow> scoped_flag \<Rightarrow> behaviour \<Rightarrow> 64 word \<Rightarrow> 64 word option \<Rightarrow> nat \<Rightarrow> world \<Rightarrow>
     bool result \<times> world"
  and enqueue ::
    "nat \<Rightarrow> scoped_flag \<Rightarrow> behaviour \<Rightarrow> handler \<Rightarrow> bool \<Rightarrow> 64 word option \<Rightarrow> world \<Rightarrow>
     64 word option result \<times> world"
  and run_script ::
    "nat \<Rightarrow> scoped_flag \<Rightarrow> behaviour \<Rightarrow> action list \<Rightarrow> world \<Rightarrow> unit result \<times> world"
where
  "sync_trigger 0 sf B W = (OutOfFuel, W)"
| "sync_trigger (Suc n) sf B W =
     (if \<not> has_instance W then (Returns True, W)
      else
        let W1 = (if triggerType (inst W) = SynchronousDontQueue then unqueue W else W)
        in if handlers (inst W1) = [] \<and> \<not> filtered W1 then (Returns True, W1)
           else
             case (if filtered W1
                   then run_script n sf B
                          (B (filterCallable W1) (calls_before (filterCallable W1) W1))
                          (log_event (Invoke (filterCallable W1)) (push_context W1))
                   else (Returns (), push_context W1)) of
               (Throws e, W2) \<Rightarrow> (Throws e, W2)
             | (Undefined, W2) \<Rightarrow> (Undefined, W2)
             | (OutOfFuel, W2) \<Rightarrow> (OutOfFuel, W2)
             | (Returns u, W2) \<Rightarrow>
                 if filtered W1 \<and> destroyed W2 then (Returns True, W2)
                 else if filtered W1 \<and> back_accepted W2 then (Returns False, pop_context W2)
                 else if handlers (inst W2) = [] then (Returns True, W2)
                 else
                   let saved = triggering (inst W2);
                       W3 = enter_trigger sf W2
                   in case trigger_loop n sf B (instTriggerId (inst W3)) None 0 W3 of
                        (r, W4) \<Rightarrow> (r, leave_trigger saved W4))"
| "trigger_loop 0 sf B tid tr idx W = (OutOfFuel, W)"
| "trigger_loop (Suc n) sf B tid tr idx W =
     (if \<not> idx < length (handlers (inst W)) then (Returns True, pop_context W)
      else if triggerId (snd (handlers (inst W) ! idx)) = tid
      then trigger_loop n sf B tid tr (Suc idx) W
      else
        let W1 = (if triggerId (snd (handlers (inst W) ! idx)) < tid
                  then set_triggerId idx tid W else W)
        in case enqueue n sf B (snd (handlers (inst W1) ! idx)) False tr
                  (log_event (Dispatch tid (fst (handlers (inst W1) ! idx))) W1) of
             (Throws e, W2) \<Rightarrow> (Throws e, pop_context W2)
           | (Undefined, W2) \<Rightarrow> (Undefined, W2)
           | (OutOfFuel, W2) \<Rightarrow> (OutOfFuel, W2)
           | (Returns tr', W2) \<Rightarrow>
               if destroyed W2 then (Returns True, W2)
               else if back_accepted W2 then (Returns False, pop_context W2)
               else if handlersChanged (inst W2)
               then trigger_loop n sf B tid tr' 0
                      (W2\<lparr>inst := (inst W2)\<lparr>handlersChanged := False\<rparr>\<rparr>)
               else trigger_loop n sf B tid tr' (Suc idx) W2)"
| "enqueue n sf B aHandler aAsync aAsyncTransaction W =
     (if \<not> aAsync \<and>
         (handleInSameThreadAsEmitter aHandler \<or>
          (\<not> queueDestroyed aHandler \<and> queue aHandler = emitterQueue W))
      then
        case run_script n sf B (B (callable aHandler) (calls_before (callable aHandler) W))
               (log_event (Invoke (callable aHandler)) W) of
          (Returns u, W1) \<Rightarrow> (Returns None, W1)
        | (Throws e, W1) \<Rightarrow> (Throws e, W1)
        | (Undefined, W1) \<Rightarrow> (Undefined, W1)
        | (OutOfFuel, W1) \<Rightarrow> (OutOfFuel, W1)
      else if handleInSameThreadAsEmitter aHandler
      then (case queue_enqueue (emitterQueue W) (callable aHandler)
                   (handlerIsStateless aHandler) aAsyncTransaction W of
              (t, W1) \<Rightarrow> (Returns (Some t), W1))
      else if \<not> queueDestroyed aHandler
      then (case queue_enqueue (queue aHandler) (callable aHandler)
                   (handlerIsStateless aHandler) aAsyncTransaction W of
              (t, W1) \<Rightarrow> (Returns (Some t), W1))
      else if \<not> ignoreErrors (inst W) then (Throws event_queue_destroyed, W)
      else (Returns None, W))"
| "run_script n sf B [] W = (Returns (), W)"
| "run_script n sf B (a # as) W =
     (if destroyed W then (Returns (), W)
      else
        case (if a = SyncTrigger
              then (case sync_trigger n sf B W of
                      (Returns b, W1) \<Rightarrow> (Returns (), W1)
                    | (Throws e, W1) \<Rightarrow> (Throws e, W1)
                    | (Undefined, W1) \<Rightarrow> (Undefined, W1)
                    | (OutOfFuel, W1) \<Rightarrow> (OutOfFuel, W1))
              else simple_action a W) of
          (Returns u, W1) \<Rightarrow> run_script n sf B as W1
        | (Throws e, W1) \<Rightarrow> (Throws e, W1)
        | (Undefined, W1) \<Rightarrow> (Undefined, W1)
        | (OutOfFuel, W1) \<Rightarrow> (OutOfFuel, W1))"
  by pat_completeness auto

termination
  apply (relation "measures
    [\<lambda>x. case x of
        Inl (Inl (n, sf, B, W)) \<Rightarrow> n
      | Inl (Inr (n, sf, B, tid, tr, idx, W)) \<Rightarrow> n
      | Inr (Inl (n, sf, B, h, a, tr, W)) \<Rightarrow> n
      | Inr (Inr (n, sf, B, as, W)) \<Rightarrow> n,
     \<lambda>x. case x of
        Inl (Inl (n, sf, B, W)) \<Rightarrow> 0
      | Inl (Inr (n, sf, B, tid, tr, idx, W)) \<Rightarrow> 0
      | Inr (Inl (n, sf, B, h, a, tr, W)) \<Rightarrow> 2
      | Inr (Inr (n, sf, B, as, W)) \<Rightarrow> 1,
     \<lambda>x. case x of
        Inr (Inr (n, sf, B, as, W)) \<Rightarrow> length as
      | _ \<Rightarrow> 0]")
   apply simp_all
  done

declare sync_trigger.simps [simp del] trigger_loop.simps [simp del]
  enqueue.simps [simp del] run_script.simps [simp del]

subsection \<open>async\_trigger\<close>

text \<open>
  With \<open>aAsync\<close> true, \<open>enqueue\<close> calls no callable: it changes nothing of the
  event but puts a callback on a queue (or throws, or drops the delivery).
\<close>

lemma queue_enqueue_fields:
  assumes "queue_enqueue q f s tr W = (t, W')"
  shows "inst W' = inst W \<and> iNextCookie W' = iNextCookie W \<and> trace W' = trace W \<and>
         destroyed W' = destroyed W \<and> has_instance W' = has_instance W"
  using assms
  by (simp add: queue_enqueue_def Let_def split: option.splits if_splits) auto

lemma enqueue_async_fields:
  assumes "enqueue n sf B h True tr W = (r, W')"
  shows "inst W' = inst W \<and> iNextCookie W' = iNextCookie W \<and> trace W' = trace W \<and>
         destroyed W' = destroyed W \<and> has_instance W' = has_instance W"
proof -
  have e: "enqueue n sf B h True tr W =
     (if handleInSameThreadAsEmitter h
      then (case queue_enqueue (emitterQueue W) (callable h)
                   (handlerIsStateless h) tr W of
              (t, W1) \<Rightarrow> (Returns (Some t), W1))
      else if \<not> queueDestroyed h
      then (case queue_enqueue (queue h) (callable h)
                   (handlerIsStateless h) tr W of
              (t, W1) \<Rightarrow> (Returns (Some t), W1))
      else if \<not> ignoreErrors (inst W) then (Throws event_queue_destroyed, W)
      else (Returns None, W))"
    by (subst enqueue.simps) simp
  show ?thesis
  proof (cases "handleInSameThreadAsEmitter h")
    case True
    obtain t W1 where q: "queue_enqueue (emitterQueue W) (callable h) (handlerIsStateless h) tr W = (t, W1)"
      by (cases "queue_enqueue (emitterQueue W) (callable h) (handlerIsStateless h) tr W")
    have "W' = W1" using assms True q by (simp add: e)
    with queue_enqueue_fields [OF q] show ?thesis by simp
  next
    case nst: False
    show ?thesis
    proof (cases "queueDestroyed h")
      case False
      obtain t W1 where q: "queue_enqueue (queue h) (callable h) (handlerIsStateless h) tr W = (t, W1)"
        by (cases "queue_enqueue (queue h) (callable h) (handlerIsStateless h) tr W")
      have "W' = W1" using assms nst False q by (simp add: e)
      with queue_enqueue_fields [OF q] show ?thesis by simp
    next
      case True
      have "W' = W" using assms nst True by (simp add: e split: if_splits)
      then show ?thesis by simp
    qed
  qed
qed

text \<open>
  The loop of \<open>async_trigger\<close>, from index \<open>idx\<close>: as the loop of
  \<open>sync_trigger\<close>, without acceptance contexts and with every handler enqueued. It
  needs no fuel: no callable runs, so \<open>handlersChanged\<close> is not set again once the
  loop has cleared it.
\<close>

function async_trigger_loop ::
    "scoped_flag \<Rightarrow> behaviour \<Rightarrow> 64 word \<Rightarrow> 64 word option \<Rightarrow> nat \<Rightarrow> world \<Rightarrow>
     unit result \<times> world" where
  "async_trigger_loop sf B tid tr idx W =
     (if \<not> idx < length (handlers (inst W)) then (Returns (), W)
      else if triggerId (snd (handlers (inst W) ! idx)) = tid
      then async_trigger_loop sf B tid tr (Suc idx) W
      else
        let W1 = (if triggerId (snd (handlers (inst W) ! idx)) < tid
                  then set_triggerId idx tid W else W)
        in case enqueue 0 sf B (snd (handlers (inst W1) ! idx)) True tr
                  (log_event (Dispatch tid (fst (handlers (inst W1) ! idx))) W1) of
             (Throws e, W2) \<Rightarrow> (Throws e, W2)
           | (Undefined, W2) \<Rightarrow> (Undefined, W2)
           | (OutOfFuel, W2) \<Rightarrow> (OutOfFuel, W2)
           | (Returns tr', W2) \<Rightarrow>
               if destroyed W2 then (Returns (), W2)
               else if handlersChanged (inst W2)
               then async_trigger_loop sf B tid tr' 0
                      (W2\<lparr>inst := (inst W2)\<lparr>handlersChanged := False\<rparr>\<rparr>)
               else async_trigger_loop sf B tid tr' (Suc idx) W2)"
  by pat_completeness auto
termination
proof (relation "measures
    [\<lambda>(sf, B, tid, tr, idx, W). if handlersChanged (inst W) then 1 else 0,
     \<lambda>(sf, B, tid, tr, idx, W). length (handlers (inst W)) - idx]", goal_cases)
  case 1
  show ?case by simp
next
  case (2 sf B tid tr idx W)
  then show ?case by simp
next
  case (3 sf B tid tr idx W W1 r W2 tr')
  from enqueue_async_fields [OF 3(4) [symmetric]]
  have "inst W2 = inst W1" by (simp add: log_event_def)
  moreover have "handlersChanged (inst W1) = handlersChanged (inst W)"
    by (simp add: 3(3) set_triggerId_def)
  ultimately show ?case using 3(7) by simp
next
  case (4 sf B tid tr idx W W1 r W2 tr')
  from enqueue_async_fields [OF 4(4) [symmetric]]
  have "inst W2 = inst W1" by (simp add: log_event_def)
  moreover have "handlersChanged (inst W1) = handlersChanged (inst W)"
    "length (handlers (inst W1)) = length (handlers (inst W))"
    by (simp_all add: 4(3) set_triggerId_def)
  ultimately show ?case using 4(1,7) by simp
qed


declare async_trigger_loop.simps [simp del]

text \<open>\<open>async_trigger\<close>\<close>

definition async_trigger :: "scoped_flag \<Rightarrow> behaviour \<Rightarrow> world \<Rightarrow> unit result \<times> world" where
  "async_trigger sf B W =
     (if \<not> has_instance W then (Returns (), W)
      else
        let W1 = (if triggerType (inst W) = AsynchronousDontQueue then unqueue W else W)
        in if handlers (inst W1) = [] then (Returns (), W1)
           else
             let saved = triggering (inst W1);
                 W3 = enter_trigger sf W1
             in case async_trigger_loop sf B (instTriggerId (inst W3)) None 0 W3 of
                  (r, W4) \<Rightarrow> (r, leave_trigger saved W4))"

subsection \<open>Observations and invariants\<close>

text \<open>The cookies of the handlers dispatched for the trigger id \<open>tid\<close>, in order.\<close>

fun dispatched_for :: "64 word \<Rightarrow> trace_event list \<Rightarrow> cookie list" where
  "dispatched_for tid [] = []"
| "dispatched_for tid (Dispatch t c # es) =
     (if t = tid then c # dispatched_for tid es else dispatched_for tid es)"
| "dispatched_for tid (Invoke f # es) = dispatched_for tid es"

text \<open>The callables called inline, in order.\<close>

fun invoked :: "trace_event list \<Rightarrow> nat list" where
  "invoked [] = []"
| "invoked (Invoke f # es) = f # invoked es"
| "invoked (Dispatch t c # es) = invoked es"

text \<open>
  What holds of an event between triggers: the cookies in the handler list are
  distinct and were all given out by the cookie counter, no handler's cached trigger
  id is ahead of the event's, and the event's trigger id is not at its last value
  (the 64-bit counter has not run out).
\<close>

definition wf_world :: "world \<Rightarrow> bool" where
  "wf_world W \<longleftrightarrow>
     distinct (map fst (handlers (inst W))) \<and>
     (\<forall>c h. (c, h) \<in> set (handlers (inst W)) \<longrightarrow>
        c \<le> iNextCookie W \<and> triggerId h \<le> instTriggerId (inst W)) \<and>
     instTriggerId (inst W) + 1 \<noteq> 0"

text \<open>A behaviour whose callables never trigger the event they are called from.\<close>

definition no_nested_trigger :: "behaviour \<Rightarrow> bool" where
  "no_nested_trigger B \<longleftrightarrow> (\<forall>f k. SyncTrigger \<notin> set (B f k))"

text \<open>
  What the loop of a trigger with id \<open>tid\<close> keeps: no cached id is above \<open>tid\<close>,
  and a cookie already dispatched for \<open>tid\<close> is, while it is in the list, cached
  with \<open>tid\<close>.
\<close>

definition loop_inv :: "64 word \<Rightarrow> world \<Rightarrow> bool" where
  "loop_inv tid W \<longleftrightarrow>
     distinct (map fst (handlers (inst W))) \<and>
     (\<forall>c h. (c, h) \<in> set (handlers (inst W)) \<longrightarrow>
        c \<le> iNextCookie W \<and> triggerId h \<le> tid) \<and>
     (\<forall>c. c \<in> set (dispatched_for tid (trace W)) \<longrightarrow>
        c \<le> iNextCookie W \<and>
        (\<forall>h. (c, h) \<in> set (handlers (inst W)) \<longrightarrow> triggerId h = tid)) \<and>
     distinct (dispatched_for tid (trace W)) \<and>
     (\<forall>t c. Dispatch t c \<in> set (trace W) \<longrightarrow> t = tid)"

text \<open>What \<open>run_script\<close> does for a list of calls without \<open>SyncTrigger\<close>.\<close>

fun run_simple :: "action list \<Rightarrow> world \<Rightarrow> unit result \<times> world" where
  "run_simple [] W = (Returns (), W)"
| "run_simple (a # as) W =
     (if destroyed W then (Returns (), W)
      else case simple_action a W of
             (Returns u, W1) \<Rightarrow> run_simple as W1
           | (Throws e, W1) \<Rightarrow> (Throws e, W1)
           | (Undefined, W1) \<Rightarrow> (Undefined, W1)
           | (OutOfFuel, W1) \<Rightarrow> (OutOfFuel, W1))"


subsection \<open>Example events\<close>

text \<open>
  Callable 1 subscribes callable 3 the first time it is called; callable 2 accepts;
  the others do nothing.
\<close>

definition subscribing :: behaviour where
  "subscribing f k = (if f = 1 \<and> k = 0 then [Subscribe 3 0] else [])"

definition accepting :: behaviour where
  "accepting f k = (if f = 2 then [Accept] else [])"

text \<open>
  Callable 1, the first time it is called, triggers the event again and then
  subscribes callable 3.
\<close>

definition retriggering :: behaviour where
  "retriggering f k = (if f = 1 \<and> k = 0 then [SyncTrigger, Subscribe 3 0] else [])"

definition one_handler :: world where
  "one_handler = subscribe 1 0 (new_world 0)"

definition three_handlers :: world where
  "three_handlers = subscribe 3 0 (subscribe 2 0 (subscribe 1 0 (new_world 0)))"

text \<open>A handler whose queue, queue 7, has been destroyed.\<close>

definition orphan :: handler where
  "orphan = (new_handler 7 0 1)\<lparr>queueDestroyed := True\<rparr>"

text \<open>Callables that do nothing.\<close>

definition silent :: behaviour where
  "silent f k = []"

section \<open>Properties of the variant operators\<close>

lemma consistent_plain_ops: "consistent_ops plain_ops"
  by (simp add: consistent_ops_def plain_ops_def)

text \<open>
  C9. For two variants of the same type, when that type is Empty, Boolean, Integer,
  Real, String or CustomType, \<open>operator!=\<close> returns the negation of what
  \<open>operator==\<close> returns (given that the payload types' own \<open>!=\<close> negates their
  \<open>==\<close>). For two Enum variants \<open>operator==\<close> compares the enum values, while
  \<open>operator!=\<close> has no such case and throws \<open>unknown_type\<close>.
\<close>

theorem variant_ne_negates_eq:
  assumes "consistent_ops ops"
    and "type_of lhs = type_of rhs"
  shows "(type_of lhs \<in> {Empty, Boolean, Integer, Real, String, CustomType} \<longrightarrow>
           (\<exists>b. variant_eq ops lhs rhs = Inr b \<and> variant_ne ops lhs rhs = Inr (\<not> b))) \<and>
         (type_of lhs = Enum \<longrightarrow>
           (\<exists>a b. lhs = VEnum a \<and> rhs = VEnum b \<and>
              variant_eq ops lhs rhs = Inr (enum_eq ops a b) \<and>
              variant_ne ops lhs rhs = Inl unknown_type))"
  using assms
  by (cases lhs; cases rhs; auto simp: variant_eq_def variant_ne_def consistent_ops_def)

theorem variant_ne_negates_eq_witness:
  "consistent_ops plain_ops \<and>
   variant_eq plain_ops (VInteger 5) (VInteger 7) = Inr False \<and>
   variant_ne plain_ops (VInteger 5) (VInteger 7) = Inr True \<and>
   variant_eq plain_ops (VEnum 1) (VEnum 1) = Inr True \<and>
   variant_ne plain_ops (VEnum 1) (VEnum 1) = Inl unknown_type"
proof -
  have t: "type_of (VInteger 5 :: (int, string, nat, nat) i_simple_variant) = type_of (VInteger 7 :: (int, string, nat, nat) i_simple_variant)"
    by simp
  have e: "type_of (VEnum 1 :: (int, string, nat, nat) i_simple_variant) = type_of (VEnum 1 :: (int, string, nat, nat) i_simple_variant)"
    by simp
  show ?thesis
    using variant_ne_negates_eq [OF consistent_plain_ops t] variant_ne_negates_eq [OF consistent_plain_ops e]
    by (simp add: consistent_ops_def variant_eq_def variant_ne_def plain_ops_def)
qed

section \<open>Properties of event handles\<close>

text \<open>
  C10. Move-constructing a handle from any handle leaves the moved-from handle and
  the new handle non-primary. When the control block either of them points to is
  alive and valid, destroying it returns (the destructor is defined), keeps the
  cookie reference as it was (\<open>iRef.reset()\<close> is not called) and only releases the
  control block.
\<close>

theorem handle_move_not_primary:
  assumes "handle_move aOther heap = (new, moved, heap')"
  shows "\<not> primary new \<and> \<not> primary moved \<and>
         (\<forall>heap2 a c. iControl aOther = Some a \<and> heap2 a = Some c \<and> valid c \<longrightarrow>
            handle_destroy new heap2 = Some (new, control_release a heap2) \<and>
            handle_destroy moved heap2 = Some (moved, control_release a heap2))"
  using assms by (auto simp: handle_move_def handle_destroy_def primary_def)

theorem handle_move_not_primary_witness:
  "(let (h, heap1) = handle_new 0 7 heap0;
        (new, moved, heap2) = handle_move h heap1
    in primary h \<and> \<not> primary new \<and> \<not> primary moved \<and>
       iRef new = Some 7 \<and> iRef moved = Some 7 \<and>
       map_option fst (handle_destroy new heap2) = Some new \<and>
       map_option fst (handle_destroy moved heap2) = Some moved \<and>
       map_option fst (handle_destroy h heap1) = Some (h\<lparr>iRef := None\<rparr>))"
proof -
  obtain h heap1 where h: "handle_new 0 7 heap0 = (h, heap1)"
    by (cases "handle_new 0 7 heap0")
  obtain new moved heap2 where m: "handle_move h heap1 = (new, moved, heap2)"
    by (cases "handle_move h heap1")
  have c: "iControl h = Some 0 \<and> heap2 0 = Some \<lparr>iEvent = Some 0, iRefCount = 3\<rparr> \<and>
           valid \<lparr>iEvent = Some 0, iRefCount = 3\<rparr>"
    using h m by (auto simp: handle_new_def handle_move_def heap0_def control_add_ref_def valid_def)
  have p: "primary h \<and> iRef new = Some 7 \<and> iRef moved = Some 7 \<and>
           map_option fst (handle_destroy h heap1) = Some (h\<lparr>iRef := None\<rparr>)"
    using h m
    by (auto simp: handle_new_def handle_move_def heap0_def control_add_ref_def valid_def
        primary_def handle_destroy_def)
  show ?thesis
    using handle_move_not_primary [OF m] c p by (simp add: h m)
qed

section \<open>Properties of the thread pool\<close>

subsection \<open>Insertion and promotion in a worker\<close>

lemma upper_bound_le: "upper_bound q p \<le> length q"
  by (induction q) auto

lemma upper_bound_take: "e \<in> set (take (upper_bound q p) q) \<Longrightarrow> sint p \<le> sint (snd e)"
  by (induction q) (auto split: if_splits)

lemma upper_bound_drop:
  "sorted_queue q \<Longrightarrow> e \<in> set (drop (upper_bound q p) q) \<Longrightarrow> sint (snd e) < sint p"
proof (induction q)
  case Nil
  then show ?case by simp
next
  case (Cons a q)
  show ?case
  proof (cases "sint p > sint (snd a)")
    case True
    with Cons.prems show ?thesis
      by (auto simp: sorted_queue_def)
  next
    case False
    with Cons show ?thesis by (auto simp: sorted_queue_def)
  qed
qed

lemma sorted_queue_emplace:
  assumes "sorted_queue q"
  shows "sorted_queue (emplace q (upper_bound q p) (t, p))"
proof -
  let ?k = "upper_bound q p"
  have q: "q = take ?k q @ drop ?k q" by simp
  have s: "sorted_queue (take ?k q @ drop ?k q)" using assms by simp
  have "sorted_queue (take ?k q @ (t, p) # drop ?k q)"
    unfolding sorted_queue_def sorted_wrt_append
    using s upper_bound_take [of _ q p] upper_bound_drop [OF assms, of _ p]
    by (fastforce simp: sorted_queue_def sorted_wrt_append simp del: append_take_drop_id)
  then show ?thesis by (simp add: emplace_def)
qed

lemma sorted_queue_index:
  assumes "sorted_queue q" "ia < length q" "ib < length q"
    and "sint (snd (q ! ib)) < sint (snd (q ! ia))"
  shows "ia < ib"
proof (rule ccontr)
  assume "\<not> ia < ib"
  then have "ib < ia \<or> ib = ia" by auto
  then show False
  proof
    assume "ib < ia"
    with assms(1,2) have "sint (snd (q ! ia)) \<le> sint (snd (q ! ib))"
      by (simp add: sorted_queue_def sorted_wrt_iff_nth_less)
    with assms(4) show False by simp
  next
    assume "ib = ia"
    with assms(4) show False by simp
  qed
qed

lemma next_task_promotes:
  assumes "i < length (iThreads P)" "\<not> active (iThreads P ! i)"
    and "iWaitingTasks (iThreads P ! i) = front # rest"
  shows "next_task i P =
           Inr (thread_gone_busy (set_thread i
             ((iThreads P ! i)\<lparr>iActiveTask := Some (fst front), iWaitingTasks := rest\<rparr>) P))"
  using assms by (simp add: next_task.simps)

lemma nth_set_thread [simp]:
  "i < length (iThreads P) \<Longrightarrow> iThreads (set_thread i t P) ! i = t"
  by (simp add: set_thread_def)

lemma length_set_thread [simp]: "length (iThreads (set_thread i t P)) = length (iThreads P)"
  by (simp add: set_thread_def)

lemma iThreads_update_idle [simp]: "iThreads (update_idle P) = iThreads P"
  by (simp add: update_idle_def)

lemma add_active:
  assumes "i < length (iThreads P)" "active (iThreads P ! i)"
  shows "add i t p P =
           Inr (set_thread i ((iThreads P ! i)\<lparr>iWaitingTasks :=
                  emplace (iWaitingTasks (iThreads P ! i))
                    (upper_bound (iWaitingTasks (iThreads P ! i)) p) (t, p)\<rparr>) P)"
  using assms by (auto simp: add.simps Let_def active_def)

lemma add_inactive:
  assumes "i < length (iThreads P)" "\<not> active (iThreads P ! i)"
  shows "add i t p P =
           (let q = emplace (iWaitingTasks (iThreads P ! i))
                    (upper_bound (iWaitingTasks (iThreads P ! i)) p) (t, p)
            in Inr (thread_gone_busy (set_thread i
                 ((iThreads P ! i)\<lparr>iActiveTask := Some (fst (hd q)), iWaitingTasks := tl q\<rparr>) P)))"
proof -
  let ?q = "emplace (iWaitingTasks (iThreads P ! i))
                    (upper_bound (iWaitingTasks (iThreads P ! i)) p) (t, p)"
  let ?P1 = "set_thread i ((iThreads P ! i)\<lparr>iWaitingTasks := ?q\<rparr>) P"
  obtain front rest where q: "?q = front # rest"
    by (cases ?q) auto
  have a: "add i t p P = next_task i ?P1"
    using assms by (simp add: add.simps Let_def active_def)
  have "next_task i ?P1 = Inr (thread_gone_busy (set_thread i
             ((iThreads ?P1 ! i)\<lparr>iActiveTask := Some (fst front), iWaitingTasks := rest\<rparr>) ?P1))"
    by (rule next_task_promotes) (use assms q in \<open>simp_all add: active_def\<close>)
  then show ?thesis
    using assms a q by (simp add: Let_def set_thread_def)
qed

lemma first_inactive_Some:
  "first_inactive ts k0 = Some k \<Longrightarrow>
     k0 \<le> k \<and> k - k0 < length ts \<and> \<not> active (ts ! (k - k0)) \<and> (\<forall>j < k - k0. active (ts ! j))"
proof (induction ts arbitrary: k0)
  case Nil
  then show ?case by simp
next
  case (Cons a ts)
  show ?case
  proof (cases "active a")
    case False
    with Cons.prems show ?thesis by simp
  next
    case True
    with Cons.prems have "first_inactive ts (Suc k0) = Some k" by simp
    from Cons.IH [OF this] have ih: "Suc k0 \<le> k" "k - Suc k0 < length ts"
      "\<not> active (ts ! (k - Suc k0))" "\<forall>j < k - Suc k0. active (ts ! j)" by auto
    have e: "k - k0 = Suc (k - Suc k0)" using ih(1) by simp
    show ?thesis
      using ih True unfolding e by (auto simp: less_Suc_eq_0_disj)
  qed
qed

lemma first_inactive_None:
  "first_inactive ts k0 = None \<longleftrightarrow> (\<forall>j < length ts. active (ts ! j))"
  by (induction ts arbitrary: k0) (auto simp: less_Suc_eq_0_disj)

lemma first_inactive_at:
  assumes "k < length ts" "\<not> active (ts ! k)" "\<forall>j<k. active (ts ! j)"
  shows "first_inactive ts 0 = Some k"
proof (cases "first_inactive ts 0")
  case None
  with assms show ?thesis by (simp add: first_inactive_None)
next
  case (Some k')
  from first_inactive_Some [OF this]
  have k': "k' < length ts" "\<not> active (ts ! k')" "\<forall>j<k'. active (ts ! j)" by auto
  have "k' = k"
    using assms k' by (metis linorder_neqE_nat)
  with Some show ?thesis by simp
qed

lemma add_result:
  assumes "i < length (iThreads P)"
  shows "\<exists>P'. add i t p P = Inr P' \<and> length (iThreads P') = length (iThreads P) \<and>
           (\<forall>j. j \<noteq> i \<longrightarrow> iThreads P' ! j = iThreads P ! j) \<and>
           (let q = emplace (iWaitingTasks (iThreads P ! i))
                      (upper_bound (iWaitingTasks (iThreads P ! i)) p) (t, p)
            in if active (iThreads P ! i)
               then iActiveTask (iThreads P' ! i) = iActiveTask (iThreads P ! i) \<and>
                    iWaitingTasks (iThreads P' ! i) = q
               else iActiveTask (iThreads P' ! i) = Some (fst (hd q)) \<and>
                    iWaitingTasks (iThreads P' ! i) = tl q)"
proof (cases "active (iThreads P ! i)")
  case True
  show ?thesis
    using assms True by (simp add: add_active [OF assms True] Let_def set_thread_def)
next
  case False
  show ?thesis
    using assms False
    by (simp add: add_inactive [OF assms False] Let_def set_thread_def thread_gone_busy_def)
qed

text \<open>
  C4. \<open>add(task, priority)\<close> on a worker whose queue is in non-increasing priority
  order puts the entry at the upper bound: every entry before it has a priority
  greater than or equal to the new one (so it comes after the entries of equal
  priority), every entry after it a smaller one, the older entries keep their order
  and the queue stays in non-increasing order, also after the promotion that
  \<open>add\<close> makes when no task is active. In such a queue an entry of greater
  priority stands before every entry of smaller priority, and promotion
  (\<open>next_task\<close>) takes the front: with A at priority p1 and B at priority p2 < p1
  both waiting, the promoted entry has priority at least p1 and B is still waiting
  afterwards.
\<close>

theorem add_keeps_priority_order:
  assumes "i < length (iThreads P)"
    and "sorted_queue (iWaitingTasks (iThreads P ! i))"
  shows "(let q = iWaitingTasks (iThreads P ! i); k = upper_bound q p;
              q' = emplace q k (t, p)
          in q' = take k q @ (t, p) # drop k q \<and>
             (\<forall>e \<in> set (take k q). sint p \<le> sint (snd e)) \<and>
             (\<forall>e \<in> set (drop k q). sint (snd e) < sint p) \<and>
             sorted_queue q' \<and>
             (\<exists>P'. add i t p P = Inr P' \<and>
                sorted_queue (iWaitingTasks (iThreads P' ! i)) \<and>
                (if active (iThreads P ! i)
                 then iActiveTask (iThreads P' ! i) = iActiveTask (iThreads P ! i) \<and>
                      iWaitingTasks (iThreads P' ! i) = q'
                 else iActiveTask (iThreads P' ! i) = Some (fst (hd q')) \<and>
                      iWaitingTasks (iThreads P' ! i) = tl q')) \<and>
             (\<forall>ia ib. ia < length q \<and> ib < length q \<and>
                sint (snd (q ! ib)) < sint (snd (q ! ia)) \<longrightarrow> ia < ib) \<and>
             (\<forall>A p1 B p2. \<not> active (iThreads P ! i) \<and> (A, p1) \<in> set q \<and> (B, p2) \<in> set q \<and>
                sint p2 < sint p1 \<longrightarrow>
                (\<exists>P'. next_task i P = Inr P' \<and>
                   iActiveTask (iThreads P' ! i) = Some (fst (hd q)) \<and>
                   sint p1 \<le> sint (snd (hd q)) \<and>
                   iWaitingTasks (iThreads P' ! i) = tl q \<and>
                   (B, p2) \<in> set (iWaitingTasks (iThreads P' ! i)))))"
proof -
  define q where "q = iWaitingTasks (iThreads P ! i)"
  define k where "k = upper_bound q p"
  define q' where "q' = emplace q k (t, p)"
  have sq: "sorted_queue q" using assms(2) by (simp add: q_def)
  have c1: "q' = take k q @ (t, p) # drop k q"
    by (simp add: q'_def emplace_def)
  have c2: "\<forall>e \<in> set (take k q). sint p \<le> sint (snd e)"
    using upper_bound_take [of _ q p] by (auto simp: k_def)
  have c3: "\<forall>e \<in> set (drop k q). sint (snd e) < sint p"
    using upper_bound_drop [OF sq, of _ p] by (auto simp: k_def)
  have c4: "sorted_queue q'"
    using sorted_queue_emplace [OF sq] by (simp add: q'_def k_def)
  have tl: "sorted_queue (tl q')"
    using c4 by (cases q') (auto simp: sorted_queue_def)
  obtain P' where P': "add i t p P = Inr P'"
      "if active (iThreads P ! i)
       then iActiveTask (iThreads P' ! i) = iActiveTask (iThreads P ! i) \<and>
            iWaitingTasks (iThreads P' ! i) = q'
       else iActiveTask (iThreads P' ! i) = Some (fst (hd q')) \<and>
            iWaitingTasks (iThreads P' ! i) = tl q'"
    using add_result [OF assms(1), of t p] by (auto simp: Let_def q'_def k_def q_def)
  have c5: "\<exists>P'. add i t p P = Inr P' \<and>
                sorted_queue (iWaitingTasks (iThreads P' ! i)) \<and>
                (if active (iThreads P ! i)
                 then iActiveTask (iThreads P' ! i) = iActiveTask (iThreads P ! i) \<and>
                      iWaitingTasks (iThreads P' ! i) = q'
                 else iActiveTask (iThreads P' ! i) = Some (fst (hd q')) \<and>
                      iWaitingTasks (iThreads P' ! i) = tl q')"
    using P' c4 tl by (intro exI [of _ P']) (auto split: if_splits)
  have c6: "\<forall>ia ib. ia < length q \<and> ib < length q \<and>
                sint (snd (q ! ib)) < sint (snd (q ! ia)) \<longrightarrow> ia < ib"
    using sorted_queue_index [OF sq] by blast
  have c7: "\<exists>P'. next_task i P = Inr P' \<and>
                   iActiveTask (iThreads P' ! i) = Some (fst (hd q)) \<and>
                   sint p1 \<le> sint (snd (hd q)) \<and>
                   iWaitingTasks (iThreads P' ! i) = tl q \<and>
                   (B, p2) \<in> set (iWaitingTasks (iThreads P' ! i))"
    if h: "\<not> active (iThreads P ! i)" "(A, p1) \<in> set q" "(B, p2) \<in> set q" "sint p2 < sint p1"
    for A p1 B p2
  proof -
    obtain front rest where fr: "q = front # rest"
      using h(2) by (cases q) auto
    have hd_max: "sint p1 \<le> sint (snd front)"
      using sq h(2) by (auto simp: fr sorted_queue_def)
    have "(B, p2) \<noteq> front" using hd_max h(4) by auto
    then have B: "(B, p2) \<in> set rest" using h(3) by (simp add: fr)
    have "next_task i P = Inr (thread_gone_busy (set_thread i
             ((iThreads P ! i)\<lparr>iActiveTask := Some (fst front), iWaitingTasks := rest\<rparr>) P))"
      by (rule next_task_promotes [OF assms(1) h(1)]) (simp add: fr [unfolded q_def])
    then show ?thesis
      using assms(1) hd_max B by (simp add: fr thread_gone_busy_def)
  qed
  show ?thesis
    unfolding Let_def q_def [symmetric] k_def [symmetric] q'_def [symmetric]
    using c1 c2 c3 c4 c5 c6 c7 by blast
qed

theorem add_keeps_priority_order_witness:
  "0 < length (iThreads busy_pool) \<and>
   sorted_queue (iWaitingTasks (iThreads busy_pool ! 0)) \<and>
   (\<exists>P'. add 0 3 3 busy_pool = Inr P' \<and>
      iActiveTask (iThreads P' ! 0) = Some 0 \<and>
      iWaitingTasks (iThreads P' ! 0) = [(2, 5), (3, 3), (1, 1)]) \<and>
   0 < length (iThreads released_pool) \<and>
   sorted_queue (iWaitingTasks (iThreads released_pool ! 0)) \<and>
   (\<exists>P'. next_task 0 released_pool = Inr P' \<and>
      iActiveTask (iThreads P' ! 0) = Some 2 \<and>
      iWaitingTasks (iThreads P' ! 0) = [(3, 3), (1, 1)])"
proof -
  have b1: "0 < length (iThreads busy_pool)"
    by (simp add: busy_pool_def)
  have b2: "sorted_queue (iWaitingTasks (iThreads busy_pool ! 0))"
    by (simp add: busy_pool_def sorted_queue_def)
  have r1: "0 < length (iThreads released_pool)"
    by (simp add: released_pool_def)
  have r2: "sorted_queue (iWaitingTasks (iThreads released_pool ! 0))"
    by (simp add: released_pool_def sorted_queue_def)
  have a: "\<exists>P'. add 0 3 3 busy_pool = Inr P' \<and>
      iActiveTask (iThreads P' ! 0) = Some 0 \<and>
      iWaitingTasks (iThreads P' ! 0) = [(2, 5), (3, 3), (1, 1)]"
    using add_keeps_priority_order [OF b1 b2, of 3 3]
    by (auto simp: busy_pool_def Let_def emplace_def active_def)
  note T = add_keeps_priority_order [OF r1 r2, of 3 3, unfolded Let_def]
  have pre: "\<not> active (iThreads released_pool ! 0) \<and>
      (2, 5) \<in> set (iWaitingTasks (iThreads released_pool ! 0)) \<and>
      (1, 1) \<in> set (iWaitingTasks (iThreads released_pool ! 0)) \<and>
      sint (1 :: 32 word) < sint (5 :: 32 word)"
    by (simp add: released_pool_def active_def)
  from T have "\<forall>A p1 B p2. \<not> active (iThreads released_pool ! 0) \<and>
        (A, p1) \<in> set (iWaitingTasks (iThreads released_pool ! 0)) \<and>
        (B, p2) \<in> set (iWaitingTasks (iThreads released_pool ! 0)) \<and>
        sint p2 < sint p1 \<longrightarrow>
        (\<exists>P'. next_task 0 released_pool = Inr P' \<and>
           iActiveTask (iThreads P' ! 0) =
             Some (fst (hd (iWaitingTasks (iThreads released_pool ! 0)))) \<and>
           sint p1 \<le> sint (snd (hd (iWaitingTasks (iThreads released_pool ! 0)))) \<and>
           iWaitingTasks (iThreads P' ! 0) = tl (iWaitingTasks (iThreads released_pool ! 0)) \<and>
           (B, p2) \<in> set (iWaitingTasks (iThreads P' ! 0)))"
    by (elim conjE)
  with pre have "\<exists>P'. next_task 0 released_pool = Inr P' \<and>
           iActiveTask (iThreads P' ! 0) =
             Some (fst (hd (iWaitingTasks (iThreads released_pool ! 0)))) \<and>
           iWaitingTasks (iThreads P' ! 0) = tl (iWaitingTasks (iThreads released_pool ! 0))"
    by blast
  moreover have "iWaitingTasks (iThreads released_pool ! 0) = [(2, 5), (3, 3), (1, 1)]"
    by (simp add: released_pool_def)
  ultimately have n: "\<exists>P'. next_task 0 released_pool = Inr P' \<and>
      iActiveTask (iThreads P' ! 0) = Some 2 \<and>
      iWaitingTasks (iThreads P' ! 0) = [(3, 3), (1, 1)]"
    by simp
  show ?thesis using b1 b2 r1 r2 a n by blast
qed

subsection \<open>start\<close>

text \<open>
  C5. \<open>start(task, priority)\<close> returns with the pool unchanged when the pool is
  stopped; otherwise it throws \<open>no_threads\<close> when the pool has no worker; otherwise
  it calls \<open>add\<close> of the first worker, in creation order, whose \<open>active()\<close> is
  false, or of worker 0 when every worker is active. That \<open>add\<close> returns, changes
  no other worker and leaves the task in the chosen worker: as its active task or in
  its queue (in its queue when the worker was active).
\<close>

theorem start_dispatch:
  "(stopped P \<longrightarrow> start t p P = Inr P) \<and>
   (\<not> stopped P \<and> iThreads P = [] \<longrightarrow> start t p P = Inl no_threads) \<and>
   (\<forall>k. \<not> stopped P \<and> k < length (iThreads P) \<and> \<not> active (iThreads P ! k) \<and>
        (\<forall>j<k. active (iThreads P ! j)) \<longrightarrow>
      start t p P = add k t p P \<and>
      (\<exists>P'. start t p P = Inr P' \<and>
         (\<forall>j. j \<noteq> k \<longrightarrow> iThreads P' ! j = iThreads P ! j) \<and>
         (iActiveTask (iThreads P' ! k) = Some t \<or>
          (t, p) \<in> set (iWaitingTasks (iThreads P' ! k))))) \<and>
   (\<not> stopped P \<and> iThreads P \<noteq> [] \<and> (\<forall>j < length (iThreads P). active (iThreads P ! j)) \<longrightarrow>
      start t p P = add 0 t p P \<and>
      (\<exists>P'. start t p P = Inr P' \<and>
         (\<forall>j. j \<noteq> 0 \<longrightarrow> iThreads P' ! j = iThreads P ! j) \<and>
         iActiveTask (iThreads P' ! 0) = iActiveTask (iThreads P ! 0) \<and>
         (t, p) \<in> set (iWaitingTasks (iThreads P' ! 0))))"
proof -
  have in_emplace: "(t, p) \<in> set (emplace q k (t, p))" for q k
    by (simp add: emplace_def)
  have hd_or_tl: "fst (hd q) = t \<or> (t, p) \<in> set (tl q)" if "(t, p) \<in> set q" for q
    using that by (cases q) auto
  have c3: "start t p P = add k t p P \<and>
      (\<exists>P'. start t p P = Inr P' \<and>
         (\<forall>j. j \<noteq> k \<longrightarrow> iThreads P' ! j = iThreads P ! j) \<and>
         (iActiveTask (iThreads P' ! k) = Some t \<or>
          (t, p) \<in> set (iWaitingTasks (iThreads P' ! k))))"
    if h: "\<not> stopped P" "k < length (iThreads P)" "\<not> active (iThreads P ! k)"
      "\<forall>j<k. active (iThreads P ! j)" for k
  proof -
    have ne: "iThreads P \<noteq> []" using h(2) by auto
    have s: "start t p P = add k t p P"
      using h(1) ne first_inactive_at [OF h(2,3,4)] by (simp add: start_def)
    obtain P' where P': "add k t p P = Inr P'"
        "\<forall>j. j \<noteq> k \<longrightarrow> iThreads P' ! j = iThreads P ! j"
        "iActiveTask (iThreads P' ! k) =
           Some (fst (hd (emplace (iWaitingTasks (iThreads P ! k))
                      (upper_bound (iWaitingTasks (iThreads P ! k)) p) (t, p))))"
        "iWaitingTasks (iThreads P' ! k) =
           tl (emplace (iWaitingTasks (iThreads P ! k))
                      (upper_bound (iWaitingTasks (iThreads P ! k)) p) (t, p))"
      using add_result [OF h(2), of t p] h(3) by (auto simp: Let_def)
    show ?thesis
      using s P' hd_or_tl [OF in_emplace] by auto
  qed
  have c4: "start t p P = add 0 t p P \<and>
      (\<exists>P'. start t p P = Inr P' \<and>
         (\<forall>j. j \<noteq> 0 \<longrightarrow> iThreads P' ! j = iThreads P ! j) \<and>
         iActiveTask (iThreads P' ! 0) = iActiveTask (iThreads P ! 0) \<and>
         (t, p) \<in> set (iWaitingTasks (iThreads P' ! 0)))"
    if h: "\<not> stopped P" "iThreads P \<noteq> []" "\<forall>j < length (iThreads P). active (iThreads P ! j)"
  proof -
    have l: "0 < length (iThreads P)" using h(2) by simp
    have a0: "active (iThreads P ! 0)" using h(3) l by blast
    have "first_inactive (iThreads P) 0 = None"
      using h(3) by (simp add: first_inactive_None)
    then have s: "start t p P = add 0 t p P"
      using h(1,2) by (simp add: start_def)
    show ?thesis
      using s add_result [OF l, of t p] a0 in_emplace by (auto simp: Let_def)
  qed
  have c1: "stopped P \<longrightarrow> start t p P = Inr P"
    by (simp add: start_def)
  have c2: "\<not> stopped P \<and> iThreads P = [] \<longrightarrow> start t p P = Inl no_threads"
    by (simp add: start_def)
  show ?thesis
    using c1 c2 c3 c4 by blast
qed

theorem start_dispatch_witness:
  "stopped (two_pool\<lparr>iPoolStopped := True\<rparr>) \<and>
   start 9 4 (two_pool\<lparr>iPoolStopped := True\<rparr>) = Inr (two_pool\<lparr>iPoolStopped := True\<rparr>) \<and>
   start 9 4 (two_pool\<lparr>iThreads := []\<rparr>) = Inl no_threads \<and>
   \<not> stopped two_pool \<and> 1 < length (iThreads two_pool) \<and>
   \<not> active (iThreads two_pool ! 1) \<and> active (iThreads two_pool ! 0) \<and>
   start 9 4 two_pool = add 1 9 4 two_pool \<and>
   length (iThreads busy_pool) = 1 \<and> active (iThreads busy_pool ! 0) \<and>
   start 9 4 busy_pool = add 0 9 4 busy_pool"
  using start_dispatch [of "two_pool\<lparr>iPoolStopped := True\<rparr>" 9 4]
    start_dispatch [of "two_pool\<lparr>iThreads := []\<rparr>" 9 4]
    start_dispatch [of two_pool 9 4] start_dispatch [of busy_pool 9 4]
  by (simp add: two_pool_def busy_pool_def stopped_def active_def new_thread_def)


subsection \<open>reserve\<close>

lemma reserve_loop_eq:
  "reserve_loop P =
     P\<lparr>iThreads := iThreads P @ replicate (iMaxThreads P - length (iThreads P)) new_thread\<rparr>"
proof (induction P rule: reserve_loop.induct)
  case (1 P)
  show ?case
  proof (cases "length (iThreads P) < iMaxThreads P")
    case True
    then have "iMaxThreads P - length (iThreads P) = Suc (iMaxThreads P - Suc (length (iThreads P)))"
      by simp
    with True 1 show ?thesis
      by (subst reserve_loop.simps) (simp add: replicate_append_same)
  next
    case False
    then show ?thesis by (subst reserve_loop.simps) simp
  qed
qed

lemma reserve_eq:
  "reserve n P =
     P\<lparr>iMaxThreads := n,
       iThreads := iThreads P @ replicate (n - length (iThreads P)) new_thread\<rparr>"
  by (simp add: reserve_def reserve_loop_eq)

lemma fold_reserve_length: "length (iThreads P) \<le> length (iThreads (fold reserve ns P))"
proof (induction ns arbitrary: P)
  case Nil
  show ?case by simp
next
  case (Cons n ns)
  have "length (iThreads P) \<le> length (iThreads (reserve n P))"
    by (simp add: reserve_eq)
  also have "\<dots> \<le> length (iThreads (fold reserve ns (reserve n P)))"
    by (rule Cons.IH)
  finally show ?case by simp
qed

text \<open>
  C8, as the code has it. \<open>reserve(n)\<close> assigns \<open>n\<close> to \<open>iMaxThreads\<close>, so
  \<open>max_threads()\<close> is \<open>n\<close> afterwards, whatever it was; the number of workers
  becomes the maximum of the old number and \<open>n\<close>, the existing workers stay as they
  are, and no sequence of \<open>reserve\<close> calls makes the number of workers smaller.
\<close>

theorem reserve_sets_max_threads:
  "max_threads (reserve n P) = n \<and>
   length (iThreads (reserve n P)) = max (length (iThreads P)) n \<and>
   take (length (iThreads P)) (iThreads (reserve n P)) = iThreads P \<and>
   length (iThreads P) \<le> length (iThreads (fold reserve ns P))"
  using fold_reserve_length [of P ns] by (simp add: reserve_eq max_threads_def)

theorem reserve_sets_max_threads_witness:
  "max_threads (reserve 3 (new_pool 2)) = 3 \<and>
   length (iThreads (reserve 3 (new_pool 2))) = 3 \<and>
   length (iThreads (new_pool 2)) = 2 \<and>
   length (iThreads (new_pool 2)) \<le> length (iThreads (fold reserve [4, 1] (new_pool 2)))"
  using reserve_sets_max_threads [of 3 "new_pool 2" "[4, 1]"]
    reserve_sets_max_threads [of 2 "\<lparr>iThreads = [], iMaxThreads = 0, iIdle = True, iPoolStopped = False\<rparr>" "[]"]
  by (simp add: new_pool_def)

text \<open>
  C8 as stated fails: after \<open>reserve(8)\<close>, \<open>reserve(2)\<close> lowers \<open>max_threads()\<close>
  from 8 to 2 (the pool keeps its 8 workers).
\<close>

theorem reserve_lowers_max_threads:
  "max_threads (reserve 2 (new_pool 8)) < max_threads (new_pool 8) \<and>
   max_threads (new_pool 8) = 8 \<and> max_threads (reserve 2 (new_pool 8)) = 2 \<and>
   length (iThreads (reserve 2 (new_pool 8))) = 8"
  by (simp add: reserve_eq max_threads_def new_pool_def)

subsection \<open>exec\<close>

lemma add_ok:
  assumes "i < length (iThreads P)"
  shows "\<exists>P'. add i t p P = Inr P' \<and> length (iThreads P') = length (iThreads P)"
  using add_result [OF assms, of t p] by blast

lemma thread_steal_work_ok:
  assumes "i < length (iThreads P)"
  shows "\<exists>b P'. thread_steal_work j i P = Inr (b, P') \<and> (\<not> b \<longrightarrow> P' = P) \<and>
           length (iThreads P') = length (iThreads P)"
proof (cases "j < length (iThreads P)")
  case False
  then have "thread_steal_work j i P = Inr (False, P)" by (simp add: thread_steal_work.simps)
  then show ?thesis by (intro exI [of _ False] exI [of _ P]) simp
next
  case True
  show ?thesis
  proof (cases "iWaitingTasks (iThreads P ! j)")
    case Nil
    with True have "thread_steal_work j i P = Inr (False, P)"
      by (simp add: thread_steal_work.simps)
    then show ?thesis by (intro exI [of _ False] exI [of _ P]) simp
  next
    case (Cons newTask rest)
    let ?P1 = "set_thread j ((iThreads P ! j)\<lparr>iWaitingTasks := rest\<rparr>) P"
    have l: "i < length (iThreads ?P1)" using assms by simp
    from add_ok [OF l, of "fst newTask" "snd newTask"] obtain P' where
      "add i (fst newTask) (snd newTask) ?P1 = Inr P'"
      "length (iThreads P') = length (iThreads ?P1)" by blast
    with True Cons have "thread_steal_work j i P = Inr (True, P')"
      "length (iThreads P') = length (iThreads P)"
      by (simp_all add: thread_steal_work.simps)
    then show ?thesis by (intro exI [of _ True] exI [of _ P']) simp
  qed
qed

lemma steal_work_from_ok:
  assumes "i < length (iThreads P)"
  shows "\<exists>P'. steal_work_from j i P = Inr P' \<and> length (iThreads P') = length (iThreads P)"
proof (induction "length (iThreads P) - j" arbitrary: j)
  case 0
  then have "\<not> j < length (iThreads P)" by simp
  then show ?case by (simp add: steal_work_from.simps)
next
  case (Suc k)
  then have j: "j < length (iThreads P)" and k: "k = length (iThreads P) - Suc j" by simp_all
  from Suc.hyps(1) [OF k] obtain P'' where
    next_ok: "steal_work_from (Suc j) i P = Inr P''" "length (iThreads P'') = length (iThreads P)"
    by blast
  show ?case
  proof (cases "j = i")
    case True
    with j next_ok show ?thesis by (simp add: steal_work_from.simps)
  next
    case False
    from thread_steal_work_ok [OF assms, of j] obtain b P1 where
      t: "thread_steal_work j i P = Inr (b, P1)" "length (iThreads P1) = length (iThreads P)"
      by blast
    show ?thesis
      using j False t next_ok by (cases b) (simp_all add: steal_work_from.simps)
  qed
qed

lemma next_task_ok:
  assumes "i < length (iThreads P)" "\<not> active (iThreads P ! i)"
  shows "\<exists>P'. next_task i P = Inr P'"
proof (cases "iWaitingTasks (iThreads P ! i)")
  case (Cons front rest)
  with assms show ?thesis by (simp add: next_task.simps)
next
  case Nil
  have ne: "iThreads P \<noteq> []" using assms(1) by auto
  from steal_work_from_ok [OF assms(1), of 0] obtain P1 where
    "steal_work_from 0 i P = Inr P1" by blast
  with ne have s: "steal_work i P = Inr P1" by (simp add: steal_work.simps)
  show ?thesis
    using assms Nil s by (cases "iWaitingTasks (iThreads P1 ! i)") (simp_all add: next_task.simps)
qed

text \<open>
  A round of \<open>exec\<close> on a worker that is not stopped and has an active task: the
  round never throws; when the task is observed cancelled its \<open>run\<close> is not called
  and no task's state changes (the worker only releases the task and promotes the
  next one); otherwise \<open>run\<close> is called once, on that task.
\<close>

theorem exec_skips_cancelled:
  assumes "i < length (iThreads (pool S))" and "\<not> iStopped (iThreads (pool S) ! i)"
    and "iActiveTask (iThreads (pool S) ! i) = Some a"
  shows "\<exists>P'. exec_round cancelled run i S =
           Inr (Looping,
                (if cancelled (tasks S a) then S
                 else S\<lparr>tasks := (tasks S)(a := run (tasks S a)),
                        run_calls := run_calls S @ [a]\<rparr>)\<lparr>pool := P'\<rparr>)"
proof -
  define S1 where "S1 = (if \<not> cancelled (tasks S a)
                     then S\<lparr>tasks := (tasks S)(a := run (tasks S a)),
                            run_calls := run_calls S @ [a]\<rparr>
                     else S)"
  have p: "pool S1 = pool S" by (simp add: S1_def)
  define P1 where "P1 = set_thread i ((iThreads (pool S) ! i)\<lparr>iActiveTask := None\<rparr>) (pool S)"
  have r: "release i (pool S1) = Inr P1"
    using assms(3) by (simp add: release_def p P1_def)
  have "i < length (iThreads P1)" "\<not> active (iThreads P1 ! i)"
    using assms(1) by (simp_all add: P1_def active_def)
  from next_task_ok [OF this] obtain P2 where n: "next_task i P1 = Inr P2" by blast
  have "exec_round cancelled run i S = Inr (Looping, S1\<lparr>pool := P2\<rparr>)"
    using assms(2,3) r n by (simp add: exec_round_def Let_def S1_def [symmetric])
  then show ?thesis by (auto simp: S1_def)
qed

theorem exec_skips_cancelled_witness:
  "0 < length (iThreads (pool cancelled_pool)) \<and>
   \<not> iStopped (iThreads (pool cancelled_pool) ! 0) \<and>
   iActiveTask (iThreads (pool cancelled_pool) ! 0) = Some 0 \<and>
   cancel_flag (tasks cancelled_pool 0) \<and>
   (\<exists>P'. exec_round cancel_flag (\<lambda>s. s\<lparr>has_run := True\<rparr>) 0 cancelled_pool =
           Inr (Looping, cancelled_pool\<lparr>pool := P'\<rparr>))"
proof -
  have h: "0 < length (iThreads (pool cancelled_pool))"
    "\<not> iStopped (iThreads (pool cancelled_pool) ! 0)"
    "iActiveTask (iThreads (pool cancelled_pool) ! 0) = Some 0"
    by (simp_all add: cancelled_pool_def)
  have c: "cancel_flag (tasks cancelled_pool 0)" by (simp add: cancelled_pool_def)
  show ?thesis
    using exec_skips_cancelled [OF h, of cancel_flag "\<lambda>s. s\<lparr>has_run := True\<rparr>"] h c by simp
qed

section \<open>Properties of the event system\<close>

subsection \<open>Scripts and the loop invariant\<close>

lemma dispatched_for_append [simp]:
  "dispatched_for tid (xs @ ys) = dispatched_for tid xs @ dispatched_for tid ys"
  by (induction tid xs rule: dispatched_for.induct) auto

lemma invoked_append [simp]: "invoked (xs @ ys) = invoked xs @ invoked ys"
  by (induction xs rule: invoked.induct) auto

lemma dispatched_for_Nil: "(\<forall>c. Dispatch tid c \<notin> set es) \<Longrightarrow> dispatched_for tid es = []"
  by (induction tid es rule: dispatched_for.induct) auto

lemma run_script_simple:
  "SyncTrigger \<notin> set as \<Longrightarrow> run_script n sf B as W = run_simple as W"
proof (induction as arbitrary: W)
  case Nil
  show ?case by (simp add: run_script.simps)
next
  case (Cons a as)
  then show ?case
    by (auto simp: run_script.simps split: prod.splits result.splits)
qed

lemma find_handler_Some:
  "find_handler hs c = Some k \<Longrightarrow> k < length hs \<and> fst (hs ! k) = c"
  by (induction hs arbitrary: k) (auto split: if_splits)

lemma set_erase_at: "set (erase_at k xs) \<subseteq> set xs"
  by (auto simp: erase_at_def dest: in_set_takeD in_set_dropD)

lemma distinct_map_erase_at: "distinct (map f xs) \<Longrightarrow> distinct (map f (erase_at k xs))"
proof -
  assume d: "distinct (map f xs)"
  have "map f xs = map f (take k xs) @ map f (drop k xs)"
    by (simp flip: map_append)
  with d have d2: "distinct (map f (take k xs) @ map f (drop k xs))" by simp
  have "set (drop (Suc k) xs) \<subseteq> set (drop k xs)"
    by (simp add: set_drop_subset_set_drop)
  moreover have "distinct (map f (drop (Suc k) xs))"
    using d by (simp add: distinct_drop flip: drop_map)
  ultimately show ?thesis
    using d2 by (auto simp: erase_at_def)
qed

lemma simple_action_trace:
  "simple_action a W = (r, W') \<Longrightarrow> trace W' = trace W"
  by (cases a)
     (auto simp: set_back_accepted_def subscribe_def Let_def invalidate_handler_list_def
        unsubscribe_def unsubscribe_client_def ignore_errors_def destroy_event_def
        split: if_splits option.splits)

lemma run_simple_trace: "run_simple as W = (r, W') \<Longrightarrow> trace W' = trace W"
proof (induction as arbitrary: W)
  case Nil
  then show ?case by simp
next
  case (Cons a as)
  show ?case
  proof (cases "destroyed W")
    case True
    with Cons.prems show ?thesis by simp
  next
    case False
    obtain r1 W1 where s: "simple_action a W = (r1, W1)" by (cases "simple_action a W")
    have t1: "trace W1 = trace W" by (rule simple_action_trace [OF s])
    show ?thesis
    proof (cases r1)
      case (Returns u)
      with Cons.prems False s have "run_simple as W1 = (r, W')" by simp
      from Cons.IH [OF this] t1 show ?thesis by simp
    qed (use Cons.prems False s t1 in auto)
  qed
qed

lemma loop_inv_frame:
  "loop_inv tid W \<Longrightarrow> handlers (inst W') = handlers (inst W) \<Longrightarrow>
   iNextCookie W' = iNextCookie W \<Longrightarrow> trace W' = trace W \<Longrightarrow> loop_inv tid W'"
  by (simp add: loop_inv_def)

lemma loop_invI:
  assumes "distinct (map fst (handlers (inst W)))"
    and "\<And>c h. (c, h) \<in> set (handlers (inst W)) \<Longrightarrow> c \<le> iNextCookie W \<and> triggerId h \<le> tid"
    and "\<And>c. c \<in> set (dispatched_for tid (trace W)) \<Longrightarrow> c \<le> iNextCookie W"
    and "\<And>c h. c \<in> set (dispatched_for tid (trace W)) \<Longrightarrow> (c, h) \<in> set (handlers (inst W)) \<Longrightarrow>
           triggerId h = tid"
    and "distinct (dispatched_for tid (trace W))"
    and "\<And>t c. Dispatch t c \<in> set (trace W) \<Longrightarrow> t = tid"
  shows "loop_inv tid W"
  unfolding loop_inv_def using assms by blast

lemma loop_inv_distinct: "loop_inv tid W \<Longrightarrow> distinct (map fst (handlers (inst W)))"
  by (simp add: loop_inv_def)

lemma loop_inv_cookie:
  "loop_inv tid W \<Longrightarrow> (c, h) \<in> set (handlers (inst W)) \<Longrightarrow> c \<le> iNextCookie W"
  unfolding loop_inv_def by blast

lemma loop_inv_id:
  "loop_inv tid W \<Longrightarrow> (c, h) \<in> set (handlers (inst W)) \<Longrightarrow> triggerId h \<le> tid"
  unfolding loop_inv_def by blast

lemma loop_inv_seen_cookie:
  "loop_inv tid W \<Longrightarrow> c \<in> set (dispatched_for tid (trace W)) \<Longrightarrow> c \<le> iNextCookie W"
  unfolding loop_inv_def by blast

lemma loop_inv_seen_id:
  "loop_inv tid W \<Longrightarrow> c \<in> set (dispatched_for tid (trace W)) \<Longrightarrow>
   (c, h) \<in> set (handlers (inst W)) \<Longrightarrow> triggerId h = tid"
  unfolding loop_inv_def by blast

lemma loop_inv_seen_distinct: "loop_inv tid W \<Longrightarrow> distinct (dispatched_for tid (trace W))"
  by (simp add: loop_inv_def)

lemma loop_inv_tid: "loop_inv tid W \<Longrightarrow> Dispatch t c \<in> set (trace W) \<Longrightarrow> t = tid"
  unfolding loop_inv_def by blast

lemma loop_inv_sub:
  assumes i: "loop_inv tid W" and sub: "set (handlers (inst W')) \<subseteq> set (handlers (inst W))"
    and d: "distinct (map fst (handlers (inst W')))" and n: "iNextCookie W' = iNextCookie W"
    and t: "trace W' = trace W"
  shows "loop_inv tid W'"
proof (rule loop_invI)
  show "distinct (map fst (handlers (inst W')))" by (rule d)
  show "c \<le> iNextCookie W' \<and> triggerId h \<le> tid" if "(c, h) \<in> set (handlers (inst W'))" for c h
  proof -
    have m: "(c, h) \<in> set (handlers (inst W))" using that sub by blast
    show ?thesis
      using loop_inv_cookie [OF i m] loop_inv_id [OF i m] by (simp add: n)
  qed
  show "c \<le> iNextCookie W'" if "c \<in> set (dispatched_for tid (trace W'))" for c
  proof -
    have "c \<in> set (dispatched_for tid (trace W))" using that by (simp add: t)
    then show ?thesis using loop_inv_seen_cookie [OF i] by (simp add: n)
  qed
  show "triggerId h = tid"
    if "c \<in> set (dispatched_for tid (trace W'))" "(c, h) \<in> set (handlers (inst W'))" for c h
  proof -
    have m: "(c, h) \<in> set (handlers (inst W))" using that(2) sub by blast
    have s: "c \<in> set (dispatched_for tid (trace W))" using that(1) by (simp add: t)
    show ?thesis by (rule loop_inv_seen_id [OF i s m])
  qed
  show "distinct (dispatched_for tid (trace W'))"
    using loop_inv_seen_distinct [OF i] by (simp add: t)
  show "t' = tid" if "Dispatch t' c \<in> set (trace W')" for t' c
  proof -
    have "Dispatch t' c \<in> set (trace W)" using that by (simp add: t)
    then show ?thesis by (rule loop_inv_tid [OF i])
  qed
qed

lemma handlers_invalidate [simp]:
  "handlers (inst (invalidate_handler_list W)) = handlers (inst W)"
  "iNextCookie (invalidate_handler_list W) = iNextCookie W"
  "trace (invalidate_handler_list W) = trace W"
  "emitterQueue (invalidate_handler_list W) = emitterQueue W"
  by (simp_all add: invalidate_handler_list_def)

lemma unsubscribe_Some:
  assumes "unsubscribe c W = Some W'"
  shows "\<exists>k. handlers (inst W') = erase_at k (handlers (inst W)) \<and>
           iNextCookie W' = iNextCookie W \<and> trace W' = trace W"
proof (cases "find_handler (handlers (inst W)) c")
  case None
  with assms show ?thesis by (simp add: unsubscribe_def Let_def)
next
  case (Some k)
  with assms have "W' = (invalidate_handler_list W)\<lparr>inst := (inst (invalidate_handler_list W))
                   \<lparr>handlers := erase_at k (handlers (inst W))\<rparr>\<rparr>"
    by (simp add: unsubscribe_def Let_def)
  then have "handlers (inst W') = erase_at k (handlers (inst W)) \<and>
           iNextCookie W' = iNextCookie W \<and> trace W' = trace W"
    by simp
  then show ?thesis ..
qed

lemma unsubscribe_client_fields:
  "handlers (inst (unsubscribe_client cid W)) =
     filter (\<lambda>h. clientId (snd h) \<noteq> cid) (handlers (inst W))"
  "iNextCookie (unsubscribe_client cid W) = iNextCookie W"
  "trace (unsubscribe_client cid W) = trace W"
  by (simp_all add: unsubscribe_client_def Let_def)

lemma subscribe_fields:
  "handlers (inst (subscribe f cid W)) =
     handlers (inst W) @ [(Suc (iNextCookie W), new_handler (emitterQueue W) cid f)]"
  "iNextCookie (subscribe f cid W) = Suc (iNextCookie W)"
  "trace (subscribe f cid W) = trace W"
  by (simp_all add: subscribe_def Let_def)

lemma simple_action_loop_inv:
  assumes "loop_inv tid W" "simple_action a W = (r, W')"
  shows "loop_inv tid W'"
proof (cases a)
  case Accept
  with assms(2) have "handlers (inst W') = handlers (inst W) \<and> iNextCookie W' = iNextCookie W \<and>
      trace W' = trace W"
    by (auto simp: set_back_accepted_def split: if_splits)
  then show ?thesis using loop_inv_frame [OF assms(1)] by blast
next
  case Ignore
  with assms(2) have "handlers (inst W') = handlers (inst W) \<and> iNextCookie W' = iNextCookie W \<and>
      trace W' = trace W"
    by (auto simp: set_back_accepted_def split: if_splits)
  then show ?thesis using loop_inv_frame [OF assms(1)] by blast
next
  case (Subscribe f cid)
  have W': "W' = subscribe f cid W" using assms(2) Subscribe by simp
  have h: "handlers (inst W') = handlers (inst W) @ [(Suc (iNextCookie W), new_handler (emitterQueue W) cid f)]"
    and n: "iNextCookie W' = Suc (iNextCookie W)" and t: "trace W' = trace W"
    by (simp_all add: W' subscribe_fields)
  note i = assms(1)
  show ?thesis
  proof (rule loop_invI)
    have "c \<noteq> Suc (iNextCookie W)" if "(c, h) \<in> set (handlers (inst W))" for c h
      using loop_inv_cookie [OF i that] by simp
    then have fresh: "Suc (iNextCookie W) \<notin> fst ` set (handlers (inst W))"
      by force
    then show "distinct (map fst (handlers (inst W')))"
      using loop_inv_distinct [OF i] by (simp add: h)
    show "c \<le> iNextCookie W' \<and> triggerId h \<le> tid" if "(c, h) \<in> set (handlers (inst W'))" for c h
    proof (cases "(c, h) \<in> set (handlers (inst W))")
      case True
      show ?thesis
        using loop_inv_cookie [OF i True] loop_inv_id [OF i True] by (simp add: n)
    next
      case False
      with that have "c = Suc (iNextCookie W)" "h = new_handler (emitterQueue W) cid f"
        by (simp_all add: h)
      then show ?thesis by (simp add: n new_handler_def)
    qed
    show "c \<le> iNextCookie W'" if "c \<in> set (dispatched_for tid (trace W'))" for c
    proof -
      have "c \<in> set (dispatched_for tid (trace W))" using that by (simp add: t)
      from loop_inv_seen_cookie [OF i this] show ?thesis by (simp add: n)
    qed
    show "triggerId h = tid"
      if c: "c \<in> set (dispatched_for tid (trace W'))" and m: "(c, h) \<in> set (handlers (inst W'))" for c h
    proof -
      have s: "c \<in> set (dispatched_for tid (trace W))" using c by (simp add: t)
      have le: "c \<le> iNextCookie W" by (rule loop_inv_seen_cookie [OF i s])
      have "(c, h) \<in> set (handlers (inst W))"
      proof (rule ccontr)
        assume "(c, h) \<notin> set (handlers (inst W))"
        with m have "c = Suc (iNextCookie W)" by (simp add: h)
        with le show False by simp
      qed
      then show ?thesis by (rule loop_inv_seen_id [OF i s])
    qed
    show "distinct (dispatched_for tid (trace W'))"
      using loop_inv_seen_distinct [OF i] by (simp add: t)
    show "t' = tid" if "Dispatch t' c \<in> set (trace W')" for t' c
    proof -
      have "Dispatch t' c \<in> set (trace W)" using that by (simp add: t)
      then show ?thesis by (rule loop_inv_tid [OF i])
    qed
  qed
next
  case (Unsubscribe c)
  show ?thesis
  proof (cases "unsubscribe c W")
    case None
    with assms(2) Unsubscribe have "W' = W" by simp
    with assms(1) show ?thesis by simp
  next
    case (Some W1)
    with assms(2) Unsubscribe have "unsubscribe c W = Some W'" by simp
    from unsubscribe_Some [OF this] obtain k
      where h: "handlers (inst W') = erase_at k (handlers (inst W))"
        and n: "iNextCookie W' = iNextCookie W" and t: "trace W' = trace W"
      by blast
    show ?thesis
    proof (rule loop_inv_sub [OF assms(1) _ _ n t])
      show "set (handlers (inst W')) \<subseteq> set (handlers (inst W))"
        by (simp add: h set_erase_at)
      show "distinct (map fst (handlers (inst W')))"
        using loop_inv_distinct [OF assms(1)] by (simp add: h distinct_map_erase_at)
    qed
  qed
next
  case (UnsubscribeClient cid)
  with assms(2) have W': "W' = unsubscribe_client cid W" by simp
  have h: "handlers (inst W') = filter (\<lambda>h. clientId (snd h) \<noteq> cid) (handlers (inst W))"
    and n: "iNextCookie W' = iNextCookie W" and t: "trace W' = trace W"
    by (simp_all add: W' unsubscribe_client_fields)
  show ?thesis
  proof (rule loop_inv_sub [OF assms(1) _ _ n t])
    show "set (handlers (inst W')) \<subseteq> set (handlers (inst W))"
      by (auto simp: h)
    show "distinct (map fst (handlers (inst W')))"
      using loop_inv_distinct [OF assms(1)] by (simp add: h distinct_map_filter)
  qed
next
  case IgnoreErrors
  with assms(2) have "handlers (inst W') = handlers (inst W) \<and> iNextCookie W' = iNextCookie W \<and>
      trace W' = trace W"
    by (auto simp: ignore_errors_def)
  then show ?thesis using loop_inv_frame [OF assms(1)] by blast
next
  case SyncTrigger
  with assms show ?thesis by auto
next
  case (Throw n)
  with assms show ?thesis by auto
next
  case DestroyEvent
  have h: "handlers (inst W') = []"
    and n: "iNextCookie W' = iNextCookie W" and t: "trace W' = trace W"
    using assms(2) DestroyEvent by (auto simp: destroy_event_def new_instance_def)
  show ?thesis
    by (rule loop_inv_sub [OF assms(1) _ _ n t]) (simp_all add: h)
qed

lemma run_simple_loop_inv:
  "loop_inv tid W \<Longrightarrow> run_simple as W = (r, W') \<Longrightarrow> loop_inv tid W'"
proof (induction as arbitrary: W)
  case Nil
  then show ?case by simp
next
  case (Cons a as)
  show ?case
  proof (cases "destroyed W")
    case True
    with Cons.prems show ?thesis by simp
  next
    case False
    obtain r1 W1 where s: "simple_action a W = (r1, W1)" by (cases "simple_action a W")
    have i1: "loop_inv tid W1" by (rule simple_action_loop_inv [OF Cons.prems(1) s])
    show ?thesis
    proof (cases r1)
      case (Returns u)
      with Cons.prems False s have "run_simple as W1 = (r, W')" by simp
      from Cons.IH [OF i1 this] show ?thesis .
    qed (use Cons.prems False s i1 in auto)
  qed
qed

lemma loop_inv_log_invoke:
  assumes i: "loop_inv tid W"
  shows "loop_inv tid (log_event (Invoke f) W)"
proof -
  have h: "handlers (inst (log_event (Invoke f) W)) = handlers (inst W)"
    and n: "iNextCookie (log_event (Invoke f) W) = iNextCookie W"
    and d: "dispatched_for tid (trace (log_event (Invoke f) W)) = dispatched_for tid (trace W)"
    and t: "\<And>t c. Dispatch t c \<in> set (trace (log_event (Invoke f) W)) \<longleftrightarrow>
                  Dispatch t c \<in> set (trace W)"
    by (simp_all add: log_event_def)
  show ?thesis
    using i unfolding loop_inv_def h n d t .
qed

lemma enqueue_loop_inv:
  assumes nn: "no_nested_trigger B" and i: "loop_inv tid W"
    and e: "enqueue n sf B h a tr W = (r, W')"
  shows "loop_inv tid W'"
proof (cases "\<not> a \<and> (handleInSameThreadAsEmitter h \<or>
          (\<not> queueDestroyed h \<and> queue h = emitterQueue W))")
  case True
  let ?as = "B (callable h) (calls_before (callable h) W)"
  have ns: "SyncTrigger \<notin> set ?as" using nn by (simp add: no_nested_trigger_def)
  obtain r1 W1 where r: "run_simple ?as (log_event (Invoke (callable h)) W) = (r1, W1)"
    by (cases "run_simple ?as (log_event (Invoke (callable h)) W)")
  have i1: "loop_inv tid W1"
    by (rule run_simple_loop_inv [OF loop_inv_log_invoke [OF i] r])
  have "W' = W1"
    using e True r by (cases r1) (simp_all add: enqueue.simps run_script_simple [OF ns])
  with i1 show ?thesis by simp
next
  case False
  have e2: "enqueue n sf B h a tr W =
     (if handleInSameThreadAsEmitter h
      then (case queue_enqueue (emitterQueue W) (callable h)
                   (handlerIsStateless h) tr W of
              (t, W1) \<Rightarrow> (Returns (Some t), W1))
      else if \<not> queueDestroyed h
      then (case queue_enqueue (queue h) (callable h)
                   (handlerIsStateless h) tr W of
              (t, W1) \<Rightarrow> (Returns (Some t), W1))
      else if \<not> ignoreErrors (inst W) then (Throws event_queue_destroyed, W)
      else (Returns None, W))"
    by (subst enqueue.simps) (rule if_not_P [OF False])
  show ?thesis
  proof (cases "handleInSameThreadAsEmitter h")
    case True
    obtain t W1 where q: "queue_enqueue (emitterQueue W) (callable h) (handlerIsStateless h) tr W = (t, W1)"
      by (cases "queue_enqueue (emitterQueue W) (callable h) (handlerIsStateless h) tr W")
    have "W' = W1" using e True q by (simp add: e2)
    with queue_enqueue_fields [OF q] loop_inv_frame [OF i, of W1] show ?thesis by simp
  next
    case nst: False
    show ?thesis
    proof (cases "queueDestroyed h")
      case False
      obtain t W1 where q: "queue_enqueue (queue h) (callable h) (handlerIsStateless h) tr W = (t, W1)"
        by (cases "queue_enqueue (queue h) (callable h) (handlerIsStateless h) tr W")
      have "W' = W1" using e nst False q by (simp add: e2)
      with queue_enqueue_fields [OF q] loop_inv_frame [OF i, of W1] show ?thesis by simp
    next
      case True
      have "W' = W" using e nst True by (simp add: e2 split: if_splits)
      with i show ?thesis by simp
    qed
  qed
qed

lemma loop_inv_mark:
  assumes i: "loop_inv tid W" and idx: "idx < length (handlers (inst W))"
    and ne: "triggerId (snd (handlers (inst W) ! idx)) \<noteq> tid"
  defines "W1 \<equiv> (if triggerId (snd (handlers (inst W) ! idx)) < tid
                  then set_triggerId idx tid W else W)"
  shows "loop_inv tid (log_event (Dispatch tid (fst (handlers (inst W1) ! idx))) W1)"
    and "fst (handlers (inst W1) ! idx) = fst (handlers (inst W) ! idx)"
    and "fst (handlers (inst W) ! idx) \<notin> set (dispatched_for tid (trace W))"
proof -
  let ?hs = "handlers (inst W)"
  obtain c h where ch: "?hs ! idx = (c, h)" by (cases "?hs ! idx")
  have mem: "(c, h) \<in> set ?hs" using idx ch by (metis nth_mem)
  have "triggerId h \<le> tid" by (rule loop_inv_id [OF i mem])
  with ne ch have lt: "triggerId h < tid" by simp
  have W1: "W1 = set_triggerId idx tid W" using lt ch by (simp add: W1_def)
  let ?h' = "h\<lparr>triggerId := tid\<rparr>"
  have hs1: "handlers (inst W1) = ?hs[idx := (c, ?h')]"
    by (simp add: W1 set_triggerId_def ch)
  show c1: "fst (handlers (inst W1) ! idx) = fst (?hs ! idx)"
    using idx by (simp add: hs1 ch)
  show notin: "fst (?hs ! idx) \<notin> set (dispatched_for tid (trace W))"
  proof
    assume "fst (?hs ! idx) \<in> set (dispatched_for tid (trace W))"
    then have "c \<in> set (dispatched_for tid (trace W))" by (simp add: ch)
    from loop_inv_seen_id [OF i this mem] lt show False by simp
  qed
  let ?W2 = "log_event (Dispatch tid (fst (handlers (inst W1) ! idx))) W1"
  have hs2: "handlers (inst ?W2) = ?hs[idx := (c, ?h')]"
    by (simp add: log_event_def hs1)
  have n2: "iNextCookie ?W2 = iNextCookie W"
    by (simp add: log_event_def W1 set_triggerId_def)
  have t2: "trace ?W2 = trace W @ [Dispatch tid c]"
    using c1 by (simp add: log_event_def W1 set_triggerId_def ch)
  have fsts: "map fst (?hs[idx := (c, ?h')]) = map fst ?hs"
    using ch by (simp add: map_update) (metis fst_conv list_update_id map_update)
  have memD: "(c', h'') \<in> set ?hs \<or> (c' = c \<and> h'' = ?h')"
    if "(c', h'') \<in> set (?hs[idx := (c, ?h')])" for c' h''
    using that set_update_subset_insert [of ?hs idx "(c, ?h')"] by auto
  have uniq: "h'' = ?h'" if "(c, h'') \<in> set (?hs[idx := (c, ?h')])" for h''
  proof -
    from that obtain j where j: "j < length ?hs" "(?hs[idx := (c, ?h')]) ! j = (c, h'')"
      by (auto simp: in_set_conv_nth)
    have "map fst (?hs[idx := (c, ?h')]) ! j = c" using j by simp
    then have "map fst ?hs ! j = c" by (simp only: fsts)
    moreover have "map fst ?hs ! idx = c" using idx ch by simp
    ultimately have "map fst ?hs ! j = map fst ?hs ! idx" by simp
    then have "j = idx"
      using nth_eq_iff_index_eq [OF loop_inv_distinct [OF i], of j idx] j(1) idx by simp
    with j idx show ?thesis by simp
  qed
  show "loop_inv tid ?W2"
  proof (rule loop_invI)
    show "distinct (map fst (handlers (inst ?W2)))"
      using loop_inv_distinct [OF i] by (simp only: hs2 fsts)
    show "c' \<le> iNextCookie ?W2 \<and> triggerId h'' \<le> tid"
      if "(c', h'') \<in> set (handlers (inst ?W2))" for c' h''
    proof -
      from that have "(c', h'') \<in> set (?hs[idx := (c, ?h')])" by (simp only: hs2)
      from memD [OF this] show ?thesis
      proof
        assume m: "(c', h'') \<in> set ?hs"
        show ?thesis using loop_inv_cookie [OF i m] loop_inv_id [OF i m] by (simp add: n2)
      next
        assume "c' = c \<and> h'' = ?h'"
        then show ?thesis using loop_inv_cookie [OF i mem] by (simp add: n2)
      qed
    qed
    show "c' \<le> iNextCookie ?W2" if "c' \<in> set (dispatched_for tid (trace ?W2))" for c'
    proof -
      from that have "c' \<in> set (dispatched_for tid (trace W)) \<or> c' = c"
        by (auto simp: t2)
      then show ?thesis
        using loop_inv_seen_cookie [OF i, of c'] loop_inv_cookie [OF i mem] by (auto simp: n2)
    qed
    show "triggerId h'' = tid"
      if s: "c' \<in> set (dispatched_for tid (trace ?W2))" and m: "(c', h'') \<in> set (handlers (inst ?W2))"
      for c' h''
    proof (cases "c' = c")
      case True
      with m have "(c, h'') \<in> set (?hs[idx := (c, ?h')])" by (simp only: hs2)
      from uniq [OF this] show ?thesis by simp
    next
      case False
      from m have "(c', h'') \<in> set (?hs[idx := (c, ?h')])" by (simp only: hs2)
      from memD [OF this] False have m': "(c', h'') \<in> set ?hs" by blast
      from s False have "c' \<in> set (dispatched_for tid (trace W))" by (auto simp: t2)
      then show ?thesis by (rule loop_inv_seen_id [OF i _ m'])
    qed
    show "distinct (dispatched_for tid (trace ?W2))"
      using loop_inv_seen_distinct [OF i] notin by (simp add: t2 ch)
    show "t' = tid" if "Dispatch t' c' \<in> set (trace ?W2)" for t' c'
    proof -
      from that have "Dispatch t' c' \<in> set (trace W) \<or> t' = tid" by (auto simp: t2)
      then show ?thesis using loop_inv_tid [OF i] by blast
    qed
  qed
qed

lemma loop_inv_pop: "loop_inv tid W \<Longrightarrow> loop_inv tid (pop_context W)"
  by (rule loop_inv_frame) (simp_all add: pop_context_def)

lemma loop_inv_clear_changed:
  "loop_inv tid W \<Longrightarrow> loop_inv tid (W\<lparr>inst := (inst W)\<lparr>handlersChanged := False\<rparr>\<rparr>)"
  by (rule loop_inv_frame) simp_all

lemma trigger_loop_inv:
  assumes nn: "no_nested_trigger B"
  shows "loop_inv tid W \<Longrightarrow> trigger_loop n sf B tid tr idx W = (r, W') \<Longrightarrow> loop_inv tid W'"
proof (induction n arbitrary: tr idx W)
  case 0
  then show ?case by (simp add: trigger_loop.simps)
next
  case (Suc n)
  note i = Suc.prems(1) and run = Suc.prems(2)
  let ?hs = "handlers (inst W)"
  show ?case
  proof (cases "idx < length ?hs")
    case False
    with run have "W' = pop_context W" by (simp add: trigger_loop.simps)
    with loop_inv_pop [OF i] show ?thesis by simp
  next
    case idx: True
    show ?thesis
    proof (cases "triggerId (snd (?hs ! idx)) = tid")
      case True
      with run idx have "trigger_loop n sf B tid tr (Suc idx) W = (r, W')"
        by (simp add: trigger_loop.simps)
      from Suc.IH [OF i this] show ?thesis .
    next
      case ne: False
      define W1 where "W1 = (if triggerId (snd (?hs ! idx)) < tid
                  then set_triggerId idx tid W else W)"
      define W2 where "W2 = log_event (Dispatch tid (fst (handlers (inst W1) ! idx))) W1"
      have i2: "loop_inv tid W2"
        unfolding W2_def W1_def by (rule loop_inv_mark(1) [OF i idx ne])
      obtain re W3 where e: "enqueue n sf B (snd (handlers (inst W1) ! idx)) False tr W2 = (re, W3)"
        by (cases "enqueue n sf B (snd (handlers (inst W1) ! idx)) False tr W2")
      have i3: "loop_inv tid W3" by (rule enqueue_loop_inv [OF nn i2 e])
      have step: "trigger_loop (Suc n) sf B tid tr idx W =
         (case (re, W3) of
             (Throws e, W2) \<Rightarrow> (Throws e, pop_context W2)
           | (Undefined, W2) \<Rightarrow> (Undefined, W2)
           | (OutOfFuel, W2) \<Rightarrow> (OutOfFuel, W2)
           | (Returns tr', W2) \<Rightarrow>
               if destroyed W2 then (Returns True, W2)
               else if back_accepted W2 then (Returns False, pop_context W2)
               else if handlersChanged (inst W2)
               then trigger_loop n sf B tid tr' 0
                      (W2\<lparr>inst := (inst W2)\<lparr>handlersChanged := False\<rparr>\<rparr>)
               else trigger_loop n sf B tid tr' (Suc idx) W2)"
        using idx ne e by (simp add: trigger_loop.simps Let_def W1_def W2_def)
      show ?thesis
      proof (cases re)
        case (Returns tr')
        show ?thesis
        proof (cases "destroyed W3")
          case True
          with run step Returns have "W' = W3" by simp
          with i3 show ?thesis by simp
        next
          case nd: False
          show ?thesis
          proof (cases "back_accepted W3")
            case True
            with run step Returns nd have "W' = pop_context W3" by simp
            with loop_inv_pop [OF i3] show ?thesis by simp
          next
            case na: False
            show ?thesis
            proof (cases "handlersChanged (inst W3)")
              case True
              with run step Returns nd na
              have "trigger_loop n sf B tid tr' 0
                      (W3\<lparr>inst := (inst W3)\<lparr>handlersChanged := False\<rparr>\<rparr>) = (r, W')"
                by simp
              from Suc.IH [OF loop_inv_clear_changed [OF i3] this] show ?thesis .
            next
              case False
              with run step Returns nd na
              have "trigger_loop n sf B tid tr' (Suc idx) W3 = (r, W')" by simp
              from Suc.IH [OF i3 this] show ?thesis .
            qed
          qed
        qed
      next
        case (Throws x)
        with run step have "W' = pop_context W3" by simp
        with loop_inv_pop [OF i3] show ?thesis by simp
      next
        case Undefined
        with run step have "W' = W3" by simp
        with i3 show ?thesis by simp
      next
        case OutOfFuel
        with run step have "W' = W3" by simp
        with i3 show ?thesis by simp
      qed
    qed
  qed
qed

lemma loop_inv_all_distinct:
  assumes "loop_inv tid W"
  shows "distinct (dispatched_for t (trace W))"
proof (cases "t = tid")
  case True
  with loop_inv_seen_distinct [OF assms] show ?thesis by simp
next
  case False
  have "\<forall>c. Dispatch t c \<notin> set (trace W)"
    using loop_inv_tid [OF assms] False by blast
  then show ?thesis by (simp add: dispatched_for_Nil)
qed

lemma simple_action_instTriggerId:
  assumes "simple_action a W = (r, W')" "\<not> destroyed W'"
  shows "instTriggerId (inst W') = instTriggerId (inst W)"
proof (cases a)
  case (Unsubscribe c)
  show ?thesis
  proof (cases "unsubscribe c W")
    case None
    with assms Unsubscribe show ?thesis by simp
  next
    case (Some W1)
    with assms Unsubscribe have "W' = W1" by simp
    with Some show ?thesis
      by (cases "find_handler (handlers (inst W)) c")
        (auto simp: unsubscribe_def Let_def invalidate_handler_list_def)
  qed
next
  case DestroyEvent
  with assms(1) have "destroyed W'" by (auto simp: destroy_event_def)
  with assms(2) show ?thesis by simp
qed (use assms in \<open>auto simp: set_back_accepted_def subscribe_def Let_def invalidate_handler_list_def
        unsubscribe_client_def ignore_errors_def split: if_splits\<close>)

lemma run_simple_instTriggerId:
  "run_simple as W = (r, W') \<Longrightarrow> \<not> destroyed W' \<Longrightarrow>
   instTriggerId (inst W') = instTriggerId (inst W)"
proof (induction as arbitrary: W)
  case Nil
  then show ?case by simp
next
  case (Cons a as)
  show ?case
  proof (cases "destroyed W")
    case True
    with Cons.prems show ?thesis by simp
  next
    case False
    obtain r1 W1 where s: "simple_action a W = (r1, W1)" by (cases "simple_action a W")
    show ?thesis
    proof (cases r1)
      case (Returns u)
      with Cons.prems False s have run: "run_simple as W1 = (r, W')" by simp
      have nd: "\<not> destroyed W1"
      proof
        assume "destroyed W1"
        then have "run_simple as W1 = (Returns (), W1)" by (cases as) simp_all
        with run Cons.prems(2) \<open>destroyed W1\<close> show False by simp
      qed
      from Cons.IH [OF run Cons.prems(2)] simple_action_instTriggerId [OF s nd]
      show ?thesis by simp
    next
      case (Throws e)
      with Cons.prems False s have "W' = W1" by simp
      with simple_action_instTriggerId [OF s] Cons.prems(2) show ?thesis by simp
    next
      case Undefined
      with Cons.prems False s have "W' = W1" by simp
      with simple_action_instTriggerId [OF s] Cons.prems(2) show ?thesis by simp
    next
      case OutOfFuel
      with Cons.prems False s have "W' = W1" by simp
      with simple_action_instTriggerId [OF s] Cons.prems(2) show ?thesis by simp
    qed
  qed
qed

lemma word_le_inc:
  fixes x y :: "64 word"
  assumes "x \<le> y" "y + 1 \<noteq> 0"
  shows "x \<le> y + 1"
proof -
  have "y \<noteq> - 1" using assms(2) by auto
  then have "\<not> y + 1 \<le> y" by (simp add: inc_less_eq_self_iff_eq)
  then have "y \<le> y + 1" by simp
  with assms(1) show ?thesis by simp
qed

lemma enter_trigger_loop_inv:
  assumes i: "loop_inv tid0 W" and q: "\<forall>t c. Dispatch t c \<notin> set (trace W)"
    and t0: "instTriggerId (inst W) = tid0" and nw: "tid0 + 1 \<noteq> 0"
  shows "loop_inv (instTriggerId (inst (enter_trigger sf W))) (enter_trigger sf W)"
proof -
  let ?W' = "enter_trigger sf W"
  let ?tid = "instTriggerId (inst ?W')"
  have n: "iNextCookie ?W' = iNextCookie W" and t: "trace ?W' = trace W"
    by (simp_all add: enter_trigger_def Let_def)
  have d0: "dispatched_for ?tid (trace W) = []"
    using q by (simp add: dispatched_for_Nil)
  show ?thesis
  proof (cases "sf (triggering (inst W))")
    case True
    have h: "handlers (inst ?W') = handlers (inst W)" and tid: "?tid = tid0 + 1"
      using True t0 by (simp_all add: enter_trigger_def Let_def)
    show ?thesis
    proof (rule loop_invI)
      show "distinct (map fst (handlers (inst ?W')))"
        using loop_inv_distinct [OF i] by (simp only: h)
      show "c \<le> iNextCookie ?W' \<and> triggerId h' \<le> ?tid"
        if "(c, h') \<in> set (handlers (inst ?W'))" for c h'
      proof -
        from that have m: "(c, h') \<in> set (handlers (inst W))" by (simp only: h)
        have "triggerId h' \<le> tid0 + 1"
          by (rule word_le_inc [OF loop_inv_id [OF i m] nw])
        with loop_inv_cookie [OF i m] show ?thesis by (simp only: n tid)
      qed
    qed (simp_all only: t d0 q, simp_all add: q)
  next
    case False
    have h: "handlers (inst ?W') = map (\<lambda>(c, h). (c, h\<lparr>triggerId := 0\<rparr>)) (handlers (inst W))"
      and tid: "?tid = 1"
      using False by (simp_all add: enter_trigger_def Let_def)
    have fsts: "map fst (handlers (inst ?W')) = map fst (handlers (inst W))"
      by (simp add: h case_prod_unfold o_def)
    show ?thesis
    proof (rule loop_invI)
      show "distinct (map fst (handlers (inst ?W')))"
        using loop_inv_distinct [OF i] by (simp only: fsts)
      show "c \<le> iNextCookie ?W' \<and> triggerId h' \<le> ?tid"
        if "(c, h') \<in> set (handlers (inst ?W'))" for c h'
      proof -
        from that obtain h0 where m: "(c, h0) \<in> set (handlers (inst W))"
          and h': "h' = h0\<lparr>triggerId := 0\<rparr>"
          unfolding h by auto
        from loop_inv_cookie [OF i m] show ?thesis by (simp add: n h')
      qed
    qed (simp_all only: t d0 q, simp_all add: q)
  qed
qed

lemma quiet_distinct:
  "\<forall>t c. Dispatch t c \<notin> set (trace W) \<Longrightarrow> distinct (dispatched_for tid (trace W))"
  by (simp add: dispatched_for_Nil)

lemma wf_world_loop_inv:
  assumes wf: "wf_world W" and q: "\<forall>t c. Dispatch t c \<notin> set (trace W)"
  shows "loop_inv (instTriggerId (inst W)) W"
proof (rule loop_invI)
  show "distinct (map fst (handlers (inst W)))" using wf by (simp add: wf_world_def)
  show "c \<le> iNextCookie W \<and> triggerId h \<le> instTriggerId (inst W)"
    if "(c, h) \<in> set (handlers (inst W))" for c h
    using wf that unfolding wf_world_def by blast
qed (simp_all add: q dispatched_for_Nil)

text \<open>
  What the cached trigger id does achieve. In a sync trigger during which no
  callable triggers the event again (and, as everywhere in this model, no other
  thread acts on the event), every handler is handed to \<open>enqueue\<close> at most once
  for that trigger, whatever the callables subscribe or unsubscribe and however
  often the loop restarts from index 0: the cookies dispatched for any trigger id
  are distinct. The event is as triggers leave it (\<open>wf_world\<close>) and the trace holds
  no dispatch yet; the statement holds for every amount of fuel, so also for
  triggers that do not return.
\<close>

theorem sync_trigger_dispatches_once:
  assumes nn: "no_nested_trigger B" and wf: "wf_world W"
    and q: "\<forall>t c. Dispatch t c \<notin> set (trace W)"
  shows "distinct (dispatched_for tid (trace (snd (sync_trigger n sf B W))))"
proof (cases n)
  case 0
  then show ?thesis using quiet_distinct [OF q] by (simp add: sync_trigger.simps)
next
  case (Suc m)
  define tid0 where "tid0 = instTriggerId (inst W)"
  have nw: "tid0 + 1 \<noteq> 0" using wf by (simp add: wf_world_def tid0_def)
  have i0: "loop_inv tid0 W" unfolding tid0_def by (rule wf_world_loop_inv [OF wf q])
  define W1 where "W1 = (if triggerType (inst W) = SynchronousDontQueue then unqueue W else W)"
  have W1: "inst W1 = inst W" "trace W1 = trace W" "iNextCookie W1 = iNextCookie W"
    by (simp_all add: W1_def unqueue_def)
  define Wp where "Wp = push_context W1"
  have Wp: "handlers (inst Wp) = handlers (inst W)" "trace Wp = trace W"
    "iNextCookie Wp = iNextCookie W" "instTriggerId (inst Wp) = tid0"
    by (simp_all add: Wp_def push_context_def W1 tid0_def)
  have ip: "loop_inv tid0 Wp" by (rule loop_inv_frame [OF i0 Wp(1,3,2)])
  define fc where "fc = filterCallable W1"
  define script where "script = B fc (calls_before fc W1)"
  have ns: "SyncTrigger \<notin> set script" using nn by (simp add: script_def no_nested_trigger_def)
  define res where "res = (if filtered W1
                   then run_script m sf B script (log_event (Invoke fc) Wp)
                   else (Returns (), Wp))"
  obtain rf W2 where res: "res = (rf, W2)" by (cases res)
  have i2: "loop_inv tid0 W2" and q2: "\<forall>t c. Dispatch t c \<notin> set (trace W2)"
    and t2: "\<not> filtered W1 \<or> \<not> destroyed W2 \<Longrightarrow> instTriggerId (inst W2) = tid0"
  proof -
    show "loop_inv tid0 W2"
    proof (cases "filtered W1")
      case True
      with res have "run_simple script (log_event (Invoke fc) Wp) = (rf, W2)"
        by (simp add: res_def run_script_simple [OF ns])
      from run_simple_loop_inv [OF loop_inv_log_invoke [OF ip] this] show ?thesis .
    next
      case False
      with res ip show ?thesis by (simp add: res_def)
    qed
    show "\<forall>t c. Dispatch t c \<notin> set (trace W2)"
    proof (cases "filtered W1")
      case True
      with res have "run_simple script (log_event (Invoke fc) Wp) = (rf, W2)"
        by (simp add: res_def run_script_simple [OF ns])
      from run_simple_trace [OF this] have "trace W2 = trace W @ [Invoke fc]"
        by (simp add: log_event_def Wp)
      with q show ?thesis by simp
    next
      case False
      with res have "W2 = Wp" by (simp add: res_def)
      with q Wp show ?thesis by simp
    qed
    show "instTriggerId (inst W2) = tid0" if "\<not> filtered W1 \<or> \<not> destroyed W2"
    proof (cases "filtered W1")
      case True
      with that have nd: "\<not> destroyed W2" by simp
      from True res have "run_simple script (log_event (Invoke fc) Wp) = (rf, W2)"
        by (simp add: res_def run_script_simple [OF ns])
      from run_simple_instTriggerId [OF this nd] show ?thesis
        by (simp add: log_event_def Wp)
    next
      case False
      with res have "W2 = Wp" by (simp add: res_def)
      with Wp show ?thesis by simp
    qed
  qed
  have step: "sync_trigger (Suc m) sf B W =
     (if \<not> has_instance W then (Returns True, W)
      else if handlers (inst W1) = [] \<and> \<not> filtered W1 then (Returns True, W1)
      else case (rf, W2) of
               (Throws e, W2) \<Rightarrow> (Throws e, W2)
             | (Undefined, W2) \<Rightarrow> (Undefined, W2)
             | (OutOfFuel, W2) \<Rightarrow> (OutOfFuel, W2)
             | (Returns u, W2) \<Rightarrow>
                 if filtered W1 \<and> destroyed W2 then (Returns True, W2)
                 else if filtered W1 \<and> back_accepted W2 then (Returns False, pop_context W2)
                 else if handlers (inst W2) = [] then (Returns True, W2)
                 else
                   let saved = triggering (inst W2);
                       W3 = enter_trigger sf W2
                   in case trigger_loop m sf B (instTriggerId (inst W3)) None 0 W3 of
                        (r, W4) \<Rightarrow> (r, leave_trigger saved W4))"
    unfolding res [symmetric] res_def script_def fc_def Wp_def W1_def
    by (subst sync_trigger.simps(2)) (simp only: Let_def)
  have pop2: "\<forall>t c. Dispatch t c \<notin> set (trace (pop_context W2))"
    using q2 by (simp add: pop_context_def)
  have q1: "\<forall>t c. Dispatch t c \<notin> set (trace W1)" using q by (simp add: W1)
  show ?thesis
  proof (cases "\<not> has_instance W \<or> (handlers (inst W1) = [] \<and> \<not> filtered W1)")
    case True
    then have "snd (sync_trigger (Suc m) sf B W) = W \<or> snd (sync_trigger (Suc m) sf B W) = W1"
      by (auto simp: step)
    then show ?thesis using quiet_distinct [OF q] quiet_distinct [OF q1] Suc by auto
  next
    case False
    then have a: "\<not> \<not> has_instance W" and b: "\<not> (handlers (inst W1) = [] \<and> \<not> filtered W1)"
      by blast+
    have step2: "sync_trigger (Suc m) sf B W =
        (case (rf, W2) of
               (Throws e, W2) \<Rightarrow> (Throws e, W2)
             | (Undefined, W2) \<Rightarrow> (Undefined, W2)
             | (OutOfFuel, W2) \<Rightarrow> (OutOfFuel, W2)
             | (Returns u, W2) \<Rightarrow>
                 if filtered W1 \<and> destroyed W2 then (Returns True, W2)
                 else if filtered W1 \<and> back_accepted W2 then (Returns False, pop_context W2)
                 else if handlers (inst W2) = [] then (Returns True, W2)
                 else
                   let saved = triggering (inst W2);
                       W3 = enter_trigger sf W2
                   in case trigger_loop m sf B (instTriggerId (inst W3)) None 0 W3 of
                        (r, W4) \<Rightarrow> (r, leave_trigger saved W4))"
      by (subst step, subst if_not_P [OF a], subst if_not_P [OF b], rule refl)
    show ?thesis
    proof (cases "rf = Returns () \<and> \<not> (filtered W1 \<and> destroyed W2) \<and>
        \<not> (filtered W1 \<and> back_accepted W2) \<and> handlers (inst W2) \<noteq> []")
      case False
      then have "snd (sync_trigger (Suc m) sf B W) = W2 \<or>
          snd (sync_trigger (Suc m) sf B W) = pop_context W2"
        by (cases rf) (auto simp: step2)
      then show ?thesis using quiet_distinct [OF q2] quiet_distinct [OF pop2] Suc by auto
    next
      case True
      define W3 where "W3 = enter_trigger sf W2"
      obtain r W4 where l: "trigger_loop m sf B (instTriggerId (inst W3)) None 0 W3 = (r, W4)"
        by (cases "trigger_loop m sf B (instTriggerId (inst W3)) None 0 W3")
      have t20: "instTriggerId (inst W2) = tid0" using True t2 by blast
      have i3: "loop_inv (instTriggerId (inst W3)) W3"
        unfolding W3_def by (rule enter_trigger_loop_inv [OF i2 q2 t20 nw])
      have i4: "loop_inv (instTriggerId (inst W3)) W4"
        by (rule trigger_loop_inv [OF nn i3 l])
      have "snd (sync_trigger (Suc m) sf B W) = leave_trigger (triggering (inst W2)) W4"
        using True l by (auto simp: step2 Let_def W3_def)
      moreover have "trace (leave_trigger (triggering (inst W2)) W4) = trace W4"
        by (simp add: leave_trigger_def)
      ultimately show ?thesis
        using loop_inv_all_distinct [OF i4, of tid] Suc by simp
    qed
  qed
qed

lemma no_nested_subscribing: "no_nested_trigger subscribing"
  by (simp add: no_nested_trigger_def subscribing_def)

lemma wf_one_handler: "wf_world one_handler"
  by (simp add: wf_world_def one_handler_def subscribe_def Let_def new_world_def
      new_instance_def invalidate_handler_list_def new_handler_def)

lemma quiet_one_handler: "\<forall>t c. Dispatch t c \<notin> set (trace one_handler)"
  by (simp add: one_handler_def subscribe_def Let_def new_world_def invalidate_handler_list_def)

theorem sync_trigger_dispatches_once_witness:
  "no_nested_trigger subscribing \<and> wf_world one_handler \<and>
   (\<forall>t c. Dispatch t c \<notin> set (trace one_handler)) \<and>
   fst (sync_trigger 5 id subscribing one_handler) = Returns True \<and>
   dispatched_for 1 (trace (snd (sync_trigger 5 id subscribing one_handler))) = [1, 2] \<and>
   distinct (dispatched_for 1 (trace (snd (sync_trigger 5 id subscribing one_handler))))"
proof -
  have e: "fst (sync_trigger 5 id subscribing one_handler) = Returns True \<and>
      dispatched_for 1 (trace (snd (sync_trigger 5 id subscribing one_handler))) = [1, 2]"
    by code_simp
  show ?thesis
    using sync_trigger_dispatches_once [OF no_nested_subscribing wf_one_handler quiet_one_handler,
        of 1 5 id]
      no_nested_subscribing wf_one_handler quiet_one_handler e
    by blast
qed

lemma async_trigger_loop_inv:
  "loop_inv tid W \<Longrightarrow> async_trigger_loop sf B tid tr idx W = (r, W') \<Longrightarrow>
   loop_inv tid W' \<and> r \<noteq> OutOfFuel \<and> r \<noteq> Undefined \<and> invoked (trace W') = invoked (trace W)"
proof (induction sf B tid tr idx W rule: async_trigger_loop.induct)
  case (1 sf B tid tr idx W)
  note i = "1.prems"(1) and run = "1.prems"(2)
  let ?hs = "handlers (inst W)"
  show ?case
  proof (cases "idx < length ?hs")
    case False
    with run have "W' = W" "r = Returns ()" by (simp_all add: async_trigger_loop.simps)
    with i show ?thesis by simp
  next
    case idx: True
    show ?thesis
    proof (cases "triggerId (snd (?hs ! idx)) = tid")
      case True
      with run idx have "async_trigger_loop sf B tid tr (Suc idx) W = (r, W')"
        by (subst (asm) async_trigger_loop.simps) simp
      from "1.IH"(1) [OF _ True i this] idx show ?thesis by simp
    next
      case ne: False
      define W1 where "W1 = (if triggerId (snd (?hs ! idx)) < tid
                  then set_triggerId idx tid W else W)"
      define W2 where "W2 = log_event (Dispatch tid (fst (handlers (inst W1) ! idx))) W1"
      have i2: "loop_inv tid W2"
        unfolding W2_def W1_def by (rule loop_inv_mark(1) [OF i idx ne])
      have v2: "invoked (trace W2) = invoked (trace W)"
        by (simp add: W2_def W1_def log_event_def set_triggerId_def)
      obtain re W3 where e: "enqueue 0 sf B (snd (handlers (inst W1) ! idx)) True tr W2 = (re, W3)"
        by (cases "enqueue 0 sf B (snd (handlers (inst W1) ! idx)) True tr W2")
      note f = enqueue_async_fields [OF e]
      have i3: "loop_inv tid W3"
        by (rule loop_inv_frame [OF i2]) (simp_all add: f)
      have v3: "invoked (trace W3) = invoked (trace W)" using f v2 by simp
      have re: "re \<noteq> OutOfFuel" "re \<noteq> Undefined"
        using e by (auto simp: enqueue.simps split: if_splits prod.splits)
      have step: "async_trigger_loop sf B tid tr idx W =
         (case (re, W3) of
             (Throws e, W2) \<Rightarrow> (Throws e, W2)
           | (Undefined, W2) \<Rightarrow> (Undefined, W2)
           | (OutOfFuel, W2) \<Rightarrow> (OutOfFuel, W2)
           | (Returns tr', W2) \<Rightarrow>
               if destroyed W2 then (Returns (), W2)
               else if handlersChanged (inst W2)
               then async_trigger_loop sf B tid tr' 0
                      (W2\<lparr>inst := (inst W2)\<lparr>handlersChanged := False\<rparr>\<rparr>)
               else async_trigger_loop sf B tid tr' (Suc idx) W2)"
        using idx ne e by (subst async_trigger_loop.simps) (simp add: Let_def W1_def W2_def)
      show ?thesis
      proof (cases re)
        case (Returns tr')
        show ?thesis
        proof (cases "destroyed W3")
          case True
          with run step Returns have "W' = W3" "r = Returns ()" by simp_all
          with i3 v3 show ?thesis by simp
        next
          case nd: False
          show ?thesis
          proof (cases "handlersChanged (inst W3)")
            case True
            let ?W4 = "W3\<lparr>inst := (inst W3)\<lparr>handlersChanged := False\<rparr>\<rparr>"
            from run step Returns nd True
            have l: "async_trigger_loop sf B tid tr' 0 ?W4 = (r, W')" by simp
            have "loop_inv tid W' \<and> r \<noteq> OutOfFuel \<and> r \<noteq> Undefined \<and>
                invoked (trace W') = invoked (trace ?W4)"
              using idx ne e [unfolded W2_def] Returns nd True loop_inv_clear_changed [OF i3] l
              by (intro "1.IH"(2) [where x = W1 and xa = re and y = W3 and ?x1.0 = tr'])
                (simp_all add: W1_def)
            with v3 show ?thesis by simp
          next
            case False
            from run step Returns nd False
            have l: "async_trigger_loop sf B tid tr' (Suc idx) W3 = (r, W')" by simp
            have "loop_inv tid W' \<and> r \<noteq> OutOfFuel \<and> r \<noteq> Undefined \<and>
                invoked (trace W') = invoked (trace W3)"
              using idx ne e [unfolded W2_def] Returns nd False i3 l
              by (intro "1.IH"(3) [where x = W1 and xa = re and y = W3 and ?x1.0 = tr'])
                (simp_all add: W1_def)
            with v3 show ?thesis by simp
          qed
        qed
      next
        case (Throws x)
        with run step have "W' = W3" "r = Throws x" by simp_all
        with i3 v3 show ?thesis by simp
      next
        case Undefined
        with re show ?thesis by simp
      next
        case OutOfFuel
        with re show ?thesis by simp
      qed
    qed
  qed
qed

text \<open>
  \<open>async_trigger\<close> on an event as triggers leave it: it calls no callable,
  always ends (it returns or throws \<open>event_queue_destroyed\<close>; the loop is total, no
  fuel is involved) and hands every handler to \<open>enqueue\<close> at most once for its
  trigger id.
\<close>

theorem async_trigger_dispatches_once:
  assumes wf: "wf_world W" and q: "\<forall>t c. Dispatch t c \<notin> set (trace W)"
  shows "distinct (dispatched_for tid (trace (snd (async_trigger sf B W)))) \<and>
         fst (async_trigger sf B W) \<noteq> OutOfFuel \<and> fst (async_trigger sf B W) \<noteq> Undefined \<and>
         invoked (trace (snd (async_trigger sf B W))) = invoked (trace W)"
proof -
  define tid0 where "tid0 = instTriggerId (inst W)"
  have nw: "tid0 + 1 \<noteq> 0" using wf by (simp add: wf_world_def tid0_def)
  have i0: "loop_inv tid0 W" unfolding tid0_def by (rule wf_world_loop_inv [OF wf q])
  define W1 where "W1 = (if triggerType (inst W) = AsynchronousDontQueue then unqueue W else W)"
  have W1: "inst W1 = inst W" "trace W1 = trace W" "iNextCookie W1 = iNextCookie W"
    by (simp_all add: W1_def unqueue_def)
  have i1: "loop_inv tid0 W1" by (rule loop_inv_frame [OF i0]) (simp_all add: W1)
  have q1: "\<forall>t c. Dispatch t c \<notin> set (trace W1)" using q by (simp add: W1)
  have t1: "instTriggerId (inst W1) = tid0" by (simp add: W1 tid0_def)
  define W3 where "W3 = enter_trigger sf W1"
  obtain r W4 where l: "async_trigger_loop sf B (instTriggerId (inst W3)) None 0 W3 = (r, W4)"
    by (cases "async_trigger_loop sf B (instTriggerId (inst W3)) None 0 W3")
  have i3: "loop_inv (instTriggerId (inst W3)) W3"
    unfolding W3_def by (rule enter_trigger_loop_inv [OF i1 q1 t1 nw])
  have t3: "trace W3 = trace W" by (simp add: W3_def enter_trigger_def Let_def W1)
  from async_trigger_loop_inv [OF i3 l]
  have i4: "loop_inv (instTriggerId (inst W3)) W4" and r: "r \<noteq> OutOfFuel" "r \<noteq> Undefined"
    and v4: "invoked (trace W4) = invoked (trace W)" by (simp_all add: t3)
  have step: "async_trigger sf B W =
     (if \<not> has_instance W then (Returns (), W)
      else if handlers (inst W1) = [] then (Returns (), W1)
      else (r, leave_trigger (triggering (inst W1)) W4))"
    by (simp add: async_trigger_def Let_def W1_def [symmetric] W3_def [symmetric] l)
  have t4: "trace (leave_trigger (triggering (inst W1)) W4) = trace W4"
    by (simp add: leave_trigger_def)
  show ?thesis
  proof (cases "\<not> has_instance W \<or> handlers (inst W1) = []")
    case True
    then have "async_trigger sf B W = (Returns (), W) \<or> async_trigger sf B W = (Returns (), W1)"
      by (auto simp: step)
    then show ?thesis using quiet_distinct [OF q] W1 by auto
  next
    case False
    then have "async_trigger sf B W = (r, leave_trigger (triggering (inst W1)) W4)"
      by (auto simp: step)
    then show ?thesis
      using loop_inv_all_distinct [OF i4, of tid] r v4 t4 by simp
  qed
qed

theorem async_trigger_dispatches_once_witness:
  "wf_world one_handler \<and> (\<forall>t c. Dispatch t c \<notin> set (trace one_handler)) \<and>
   fst (async_trigger id silent one_handler) = Returns () \<and>
   dispatched_for 1 (trace (snd (async_trigger id silent one_handler))) = [1] \<and>
   distinct (dispatched_for 1 (trace (snd (async_trigger id silent one_handler)))) \<and>
   invoked (trace (snd (async_trigger id silent one_handler))) = [] \<and>
   enqueued (snd (async_trigger id silent one_handler)) = [(0, 1, False, 0)]"
proof -
  have e: "fst (async_trigger id silent one_handler) = Returns () \<and>
   dispatched_for 1 (trace (snd (async_trigger id silent one_handler))) = [1] \<and>
   invoked (trace (snd (async_trigger id silent one_handler))) = [] \<and>
   enqueued (snd (async_trigger id silent one_handler)) = [(0, 1, False, 0)]"
    by code_simp
  show ?thesis
    using async_trigger_dispatches_once [OF wf_one_handler quiet_one_handler, of 1 id silent]
      wf_one_handler quiet_one_handler e
    by simp
qed

text \<open>
  C1 does not hold of the code. The loop skips a handler only when its cached
  trigger id equals the id of the current trigger; a cached id above the current
  one is dispatched and left as it is. Here callable 1, called for the trigger with
  id 1, triggers the event again (the nested trigger, with id 2, caches 2 in the
  handler) and then subscribes a handler; the loop of the outer trigger restarts
  from index 0, finds the cached id 2 neither below nor equal to 1, and dispatches
  the handler with cookie 1 a second time for the trigger with id 1. This is so
  whether the \<open>scoped_flag\<close> sets the flag or only saves it.
\<close>

theorem nested_trigger_dispatches_twice:
  "fst (sync_trigger 6 id retriggering one_handler) = Returns True \<and>
   dispatched_for 1 (trace (snd (sync_trigger 6 id retriggering one_handler))) = [1, 1, 2] \<and>
   \<not> distinct (dispatched_for 1 (trace (snd (sync_trigger 6 id retriggering one_handler)))) \<and>
   fst (sync_trigger 6 (\<lambda>b. True) retriggering one_handler) = Returns True \<and>
   \<not> distinct (dispatched_for 1
         (trace (snd (sync_trigger 6 (\<lambda>b. True) retriggering one_handler))))"
  by code_simp

subsection \<open>Delivery to a destroyed queue\<close>

text \<open>
  C7. In a sync dispatch (\<open>aAsync\<close> false) of a handler that is not tagged
  same-thread-as-emitter: when the handler's queue has been destroyed, \<open>enqueue\<close>
  throws \<open>event_queue_destroyed\<close> if the event's \<open>ignoreErrors\<close> is unset, and
  returns with nothing changed (no exception, no call, no entry on any queue) if it
  is set. When the queue is alive \<open>enqueue\<close> does not throw that error itself: for
  a queue other than the emitter's it puts the callback on the handler's queue and
  returns its transaction, and for the emitter's queue it calls the callable inline
  and ends the way that call ends.
\<close>

theorem enqueue_destroyed_queue:
  assumes "\<not> handleInSameThreadAsEmitter h"
  shows "(queueDestroyed h \<and> \<not> ignoreErrors (inst W) \<longrightarrow>
            enqueue n sf B h False tr W = (Throws event_queue_destroyed, W)) \<and>
         (queueDestroyed h \<and> ignoreErrors (inst W) \<longrightarrow>
            enqueue n sf B h False tr W = (Returns None, W)) \<and>
         (\<not> queueDestroyed h \<and> queue h \<noteq> emitterQueue W \<longrightarrow>
            (\<exists>t W'. enqueue n sf B h False tr W = (Returns (Some t), W') \<and>
               enqueued W' = enqueued W @ [(queue h, callable h, handlerIsStateless h, t)] \<and>
               trace W' = trace W)) \<and>
         (\<not> queueDestroyed h \<and> queue h = emitterQueue W \<longrightarrow>
            enqueue n sf B h False tr W =
              (case run_script n sf B (B (callable h) (calls_before (callable h) W))
                      (log_event (Invoke (callable h)) W) of
                 (Returns u, W1) \<Rightarrow> (Returns None, W1)
               | (Throws e, W1) \<Rightarrow> (Throws e, W1)
               | (Undefined, W1) \<Rightarrow> (Undefined, W1)
               | (OutOfFuel, W1) \<Rightarrow> (OutOfFuel, W1)))"
proof -
  have q: "\<exists>t W'. queue_enqueue (queue h) (callable h) (handlerIsStateless h) tr W = (t, W') \<and>
      enqueued W' = enqueued W @ [(queue h, callable h, handlerIsStateless h, t)] \<and>
      trace W' = trace W"
    by (cases tr) (auto simp: queue_enqueue_def Let_def)
  show ?thesis
    using assms q by (auto simp: enqueue.simps)
qed

theorem enqueue_destroyed_queue_witness:
  "\<not> handleInSameThreadAsEmitter orphan \<and> queueDestroyed orphan \<and>
   \<not> ignoreErrors (inst (new_world 0)) \<and>
   enqueue 1 id silent orphan False None (new_world 0) =
     (Throws event_queue_destroyed, new_world 0) \<and>
   ignoreErrors (inst (ignore_errors (new_world 0))) \<and>
   enqueue 1 id silent orphan False None (ignore_errors (new_world 0)) =
     (Returns None, ignore_errors (new_world 0)) \<and>
   fst (enqueue 1 id silent (new_handler 7 0 1) False None (new_world 0)) = Returns (Some 0) \<and>
   enqueued (snd (enqueue 1 id silent (new_handler 7 0 1) False None (new_world 0))) =
     [(7, 1, False, 0)]"
proof -
  have o: "\<not> handleInSameThreadAsEmitter orphan"
    by (simp add: orphan_def new_handler_def)
  have l: "\<not> handleInSameThreadAsEmitter (new_handler 7 0 1)"
    by (simp add: new_handler_def)
  have f: "queueDestroyed orphan \<and> \<not> ignoreErrors (inst (new_world 0)) \<and>
      ignoreErrors (inst (ignore_errors (new_world 0))) \<and>
      \<not> queueDestroyed (new_handler 7 0 1) \<and> queue (new_handler 7 0 1) \<noteq> emitterQueue (new_world 0)"
    by (simp add: orphan_def new_handler_def new_world_def new_instance_def ignore_errors_def)
  have e: "fst (enqueue 1 id silent (new_handler 7 0 1) False None (new_world 0)) = Returns (Some 0) \<and>
   enqueued (snd (enqueue 1 id silent (new_handler 7 0 1) False None (new_world 0))) =
     [(7, 1, False, 0)]"
    by (simp add: enqueue.simps queue_enqueue_def Let_def new_handler_def new_world_def)
  have a1: "enqueue 1 id silent orphan False None (new_world 0) =
     (Throws event_queue_destroyed, new_world 0)"
    using enqueue_destroyed_queue [OF o, of "new_world 0" 1 id silent None, THEN conjunct1] f
    by blast
  have a2: "enqueue 1 id silent orphan False None (ignore_errors (new_world 0)) =
     (Returns None, ignore_errors (new_world 0))"
    using enqueue_destroyed_queue [OF o, of "ignore_errors (new_world 0)" 1 id silent None,
        THEN conjunct2, THEN conjunct1] f
    by blast
  show ?thesis
    using a1 a2 o f e by blast
qed

subsection \<open>The acceptance-context stack\<close>

text \<open>
  C3 does not hold of the code. When the event has filters and no handlers, and the
  filters neither destroy the event nor accept it, \<open>sync_trigger\<close> pushes a context,
  runs the filters and returns true at the check for an empty handler list, without
  the \<open>pop_context\<close> that the exits of a live event make when a filter or a
  handler has accepted, when a handler throws and at the end of the loop: the stack
  is one context deeper after the call than before it.
\<close>

theorem sync_trigger_leaves_context:
  assumes "has_instance W" and "handlers (inst W) = []" and "filtered W"
    and "\<not> destroyed W" and "B (filterCallable W) (calls_before (filterCallable W) W) = []"
  shows "\<exists>W'. sync_trigger (Suc n) sf B W = (Returns True, W') \<and> \<not> destroyed W' \<and>
           \<not> back_accepted W' \<and>
           length (contexts (inst W')) = Suc (length (contexts (inst W)))"
proof -
  define W1 where "W1 = (if triggerType (inst W) = SynchronousDontQueue then unqueue W else W)"
  have W1: "handlers (inst W1) = []" "filtered W1" "filterCallable W1 = filterCallable W"
    "calls_before (filterCallable W) W1 = calls_before (filterCallable W) W"
    "\<not> destroyed W1" "contexts (inst W1) = contexts (inst W)"
    using assms by (simp_all add: W1_def unqueue_def filtered_def calls_before_def)
  define W2 where "W2 = log_event (Invoke (filterCallable W)) (push_context W1)"
  have W2: "handlers (inst W2) = []" "\<not> destroyed W2" "\<not> back_accepted W2"
    "contexts (inst W2) = contexts (inst W) @ [\<lparr>accepted = False, ctxHandlersChanged = False\<rparr>]"
    using W1 by (simp_all add: W2_def log_event_def push_context_def back_accepted_def)
  have "sync_trigger (Suc n) sf B W = (Returns True, W2)"
    using assms(1,5) W1 W2
    by (subst sync_trigger.simps(2))
      (simp add: Let_def W1_def [symmetric] W2_def [symmetric] run_script.simps)
  with W2 show ?thesis by simp
qed

theorem sync_trigger_leaves_context_witness:
  "has_instance (filter_added (new_world 0)) \<and>
   handlers (inst (filter_added (new_world 0))) = [] \<and>
   filtered (filter_added (new_world 0)) \<and> \<not> destroyed (filter_added (new_world 0)) \<and>
   contexts (inst (filter_added (new_world 0))) = [] \<and>
   fst (sync_trigger 1 id silent (filter_added (new_world 0))) = Returns True \<and>
   contexts (inst (snd (sync_trigger 1 id silent (filter_added (new_world 0))))) =
     [\<lparr>accepted = False, ctxHandlersChanged = False\<rparr>] \<and>
   length (contexts (inst (snd (sync_trigger 2 id silent
      (snd (sync_trigger 1 id silent (filter_added (new_world 0)))))))) = 2"
proof -
  have h: "has_instance (filter_added (new_world 0)) \<and>
   handlers (inst (filter_added (new_world 0))) = [] \<and>
   filtered (filter_added (new_world 0)) \<and> \<not> destroyed (filter_added (new_world 0)) \<and>
   contexts (inst (filter_added (new_world 0))) = []"
    by (simp add: filter_added_def new_world_def new_instance_def filtered_def)
  have s: "silent (filterCallable (filter_added (new_world 0)))
      (calls_before (filterCallable (filter_added (new_world 0))) (filter_added (new_world 0))) = []"
    by (simp add: silent_def)
  have e: "fst (sync_trigger 1 id silent (filter_added (new_world 0))) = Returns True \<and>
   contexts (inst (snd (sync_trigger 1 id silent (filter_added (new_world 0))))) =
     [\<lparr>accepted = False, ctxHandlersChanged = False\<rparr>] \<and>
   length (contexts (inst (snd (sync_trigger 2 id silent
      (snd (sync_trigger 1 id silent (filter_added (new_world 0)))))))) = 2"
    by code_simp
  from h have h1: "has_instance (filter_added (new_world 0))"
    and h2: "handlers (inst (filter_added (new_world 0))) = []"
    and h3: "filtered (filter_added (new_world 0))"
    and h4: "\<not> destroyed (filter_added (new_world 0))" by blast+
  show ?thesis
    using sync_trigger_leaves_context [where W = "filter_added (new_world 0)" and B = silent
        and n = 0 and sf = id, OF h1 h2 h3 h4 s] h e
    by blast
qed

subsection \<open>Acceptance\<close>

lemma three_subscribed:
  "subscribe H3 c3 (subscribe H2 c2 (subscribe H1 c1 (new_world q))) =
     \<lparr>has_instance = True, destroyed = False,
      inst = \<lparr>ignoreErrors = False, triggerType = Default,
               handlers = [(1, new_handler q c1 H1), (2, new_handler q c2 H2),
                           (3, new_handler q c3 H3)],
               contexts = [], triggering = False, instTriggerId = 0,
               handlersChanged = True, filterCount = 0\<rparr>,
      iNextCookie = 3, emitterQueue = q, filterCallable = 0, enqueued = [],
      iNextTransaction = 0, trace = []\<rparr>"
  by (simp add: subscribe_def Let_def invalidate_handler_list_def new_world_def new_instance_def)

lemma enter_three:
  "enter_trigger sf (push_context
     \<lparr>has_instance = True, destroyed = False,
      inst = \<lparr>ignoreErrors = False, triggerType = Default,
               handlers = [(1, new_handler q c1 H1), (2, new_handler q c2 H2),
                           (3, new_handler q c3 H3)],
               contexts = [], triggering = False, instTriggerId = 0,
               handlersChanged = True, filterCount = 0\<rparr>,
      iNextCookie = 3, emitterQueue = q, filterCallable = 0, enqueued = [],
      iNextTransaction = 0, trace = []\<rparr>) =
     \<lparr>has_instance = True, destroyed = False,
      inst = \<lparr>ignoreErrors = False, triggerType = Default,
               handlers = [(1, new_handler q c1 H1), (2, new_handler q c2 H2),
                           (3, new_handler q c3 H3)],
               contexts = [\<lparr>accepted = False, ctxHandlersChanged = False\<rparr>],
               triggering = True, instTriggerId = 1,
               handlersChanged = True, filterCount = 0\<rparr>,
      iNextCookie = 3, emitterQueue = q, filterCallable = 0, enqueued = [],
      iNextTransaction = 0, trace = []\<rparr>"
  by (cases "sf False") (simp_all add: enter_trigger_def push_context_def Let_def new_handler_def)


lemma loop_three:
  fixes n sf q c1 c2 c3 H3
  assumes "H1 \<noteq> H2" and "B H1 0 = []" and "B H2 0 = [Accept]"
  defines "L \<equiv> trigger_loop (Suc (Suc (Suc n))) sf B 1 None 0
     \<lparr>has_instance = True, destroyed = False,
      inst = \<lparr>ignoreErrors = False, triggerType = Default,
               handlers = [(1, new_handler q c1 H1), (2, new_handler q c2 H2),
                           (3, new_handler q c3 H3)],
               contexts = [\<lparr>accepted = False, ctxHandlersChanged = False\<rparr>],
               triggering = True, instTriggerId = 1,
               handlersChanged = True, filterCount = 0\<rparr>,
      iNextCookie = 3, emitterQueue = q, filterCallable = 0, enqueued = [],
      iNextTransaction = 0, trace = []\<rparr>"
  shows "fst L = Returns False \<and>
         trace (snd L) = [Dispatch 1 1, Invoke H1, Dispatch 1 2, Invoke H2] \<and>
         contexts (inst (snd L)) = [] \<and> \<not> destroyed (snd L)"
  unfolding L_def using assms
  by (simp add: trigger_loop.simps enqueue.simps run_script.simps Let_def new_handler_def
      set_triggerId_def log_event_def calls_before_def back_accepted_def set_back_accepted_def
      pop_context_def)


lemma sync_three:
  fixes m sf q c1 c2 c3 H3
  assumes "H1 \<noteq> H2" and "B H1 0 = []" and "B H2 0 = [Accept]"
  defines "R \<equiv> sync_trigger (Suc (Suc (Suc (Suc m)))) sf B
                  (subscribe H3 c3 (subscribe H2 c2 (subscribe H1 c1 (new_world q))))"
  shows "fst R = Returns False \<and> invoked (trace (snd R)) = [H1, H2] \<and>
         contexts (inst (snd R)) = []"
proof -
  let ?W = "\<lparr>has_instance = True, destroyed = False,
      inst = \<lparr>ignoreErrors = False, triggerType = Default,
               handlers = [(1, new_handler q c1 H1), (2, new_handler q c2 H2),
                           (3, new_handler q c3 H3)],
               contexts = [], triggering = False, instTriggerId = 0,
               handlersChanged = True, filterCount = 0\<rparr>,
      iNextCookie = 3, emitterQueue = q, filterCallable = 0, enqueued = [],
      iNextTransaction = 0, trace = []\<rparr>"
  let ?E = "enter_trigger sf (push_context ?W)"
  let ?L = "trigger_loop (Suc (Suc (Suc m))) sf B (instTriggerId (inst ?E)) None 0 ?E"
  have R: "R = (fst ?L, leave_trigger False (snd ?L))"
    unfolding R_def three_subscribed
    by (subst sync_trigger.simps(2))
      (simp add: Let_def filtered_def push_context_def case_prod_unfold)
  have L: "fst ?L = Returns False \<and>
         trace (snd ?L) = [Dispatch 1 1, Invoke H1, Dispatch 1 2, Invoke H2] \<and>
         contexts (inst (snd ?L)) = [] \<and> \<not> destroyed (snd ?L)"
    unfolding enter_three
    using loop_three [where ?H1.0 = H1 and ?H2.0 = H2 and B = B, OF assms(1,2,3)] by simp
  show ?thesis
    using L by (simp add: R leave_trigger_def)
qed

text \<open>
  C2. \<open>accept()\<close> marks the top acceptance context as accepted. In the loop of a
  sync trigger, when the call of a dispatched handler returns on a live event whose
  top context is accepted, the loop ends there: it pops the context and returns
  false, and no further handler is dispatched. On an event to which H1, H2 and H3
  were subscribed in that order from the triggering thread, where H1 does nothing
  to the event and H2 accepts it, \<open>sync_trigger\<close> returns false, the callables
  called are exactly H1 and H2 (H3 is not called, whatever it would do), and the
  context stack is empty again.
\<close>

theorem accept_stops_dispatch:
  "(contexts (inst W) \<noteq> [] \<longrightarrow>
      (\<exists>W1. simple_action Accept W = (Returns (), W1) \<and> back_accepted W1)) \<and>
   (idx < length (handlers (inst W)) \<and> triggerId (snd (handlers (inst W) ! idx)) \<noteq> tid \<and>
    (let W1 = (if triggerId (snd (handlers (inst W) ! idx)) < tid
               then set_triggerId idx tid W else W)
     in enqueue n sf B (snd (handlers (inst W1) ! idx)) False tr
          (log_event (Dispatch tid (fst (handlers (inst W1) ! idx))) W1)) = (Returns tr', W3) \<and>
    \<not> destroyed W3 \<and> back_accepted W3 \<longrightarrow>
      trigger_loop (Suc n) sf B tid tr idx W = (Returns False, pop_context W3)) \<and>
   (H1 \<noteq> H2 \<and> B H1 0 = [] \<and> B H2 0 = [Accept] \<longrightarrow>
      (let R = sync_trigger (Suc (Suc (Suc (Suc m)))) sf B
                 (subscribe H3 c3 (subscribe H2 c2 (subscribe H1 c1 (new_world q))))
       in fst R = Returns False \<and> invoked (trace (snd R)) = [H1, H2] \<and>
          contexts (inst (snd R)) = []))"
proof (intro conjI impI)
  assume "contexts (inst W) \<noteq> []"
  then show "\<exists>W1. simple_action Accept W = (Returns (), W1) \<and> back_accepted W1"
    by (simp add: back_accepted_def set_back_accepted_def)
next
  assume a: "idx < length (handlers (inst W)) \<and>
    triggerId (snd (handlers (inst W) ! idx)) \<noteq> tid \<and>
    (let W1 = (if triggerId (snd (handlers (inst W) ! idx)) < tid
               then set_triggerId idx tid W else W)
     in enqueue n sf B (snd (handlers (inst W1) ! idx)) False tr
          (log_event (Dispatch tid (fst (handlers (inst W1) ! idx))) W1)) = (Returns tr', W3) \<and>
    \<not> destroyed W3 \<and> back_accepted W3"
  then show "trigger_loop (Suc n) sf B tid tr idx W = (Returns False, pop_context W3)"
    by (subst trigger_loop.simps(2)) (simp add: Let_def)
next
  assume "H1 \<noteq> H2 \<and> B H1 0 = [] \<and> B H2 0 = [Accept]"
  then have h: "H1 \<noteq> H2" "B H1 0 = []" "B H2 0 = [Accept]" by blast+
  show "let R = sync_trigger (Suc (Suc (Suc (Suc m)))) sf B
                 (subscribe H3 c3 (subscribe H2 c2 (subscribe H1 c1 (new_world q))))
       in fst R = Returns False \<and> invoked (trace (snd R)) = [H1, H2] \<and>
          contexts (inst (snd R)) = []"
    unfolding Let_def
    by (rule sync_three [where ?H1.0 = H1 and ?H2.0 = H2 and B = B, OF h])
qed

theorem accept_stops_dispatch_witness:
  "contexts (inst (push_context three_handlers)) \<noteq> [] \<and>
   back_accepted (snd (simple_action Accept (push_context three_handlers))) \<and>
   accepting 1 0 = [] \<and> accepting 2 0 = [Accept] \<and>
   fst (sync_trigger 4 id accepting three_handlers) = Returns False \<and>
   invoked (trace (snd (sync_trigger 4 id accepting three_handlers))) = [1, 2] \<and>
   contexts (inst (snd (sync_trigger 4 id accepting three_handlers))) = []"
proof -
  have c: "contexts (inst (push_context three_handlers)) \<noteq> []"
    by (simp add: push_context_def)
  have a: "(1::nat) \<noteq> 2 \<and> accepting 1 0 = [] \<and> accepting 2 0 = [Accept]"
    by (simp add: accepting_def)
  have n: "(4::nat) = Suc (Suc (Suc (Suc 0)))" by simp
  note T = accept_stops_dispatch [where W = "push_context three_handlers" and ?H1.0 = 1
      and ?H2.0 = 2 and B = accepting and m = 0 and sf = id and ?H3.0 = 3 and ?c1.0 = 0
      and ?c2.0 = 0 and ?c3.0 = 0 and q = 0]
  have t1: "back_accepted (snd (simple_action Accept (push_context three_handlers)))"
    using T [THEN conjunct1] c by auto
  have t3: "fst (sync_trigger 4 id accepting three_handlers) = Returns False \<and>
   invoked (trace (snd (sync_trigger 4 id accepting three_handlers))) = [1, 2] \<and>
   contexts (inst (snd (sync_trigger 4 id accepting three_handlers))) = []"
    using T [THEN conjunct2, THEN conjunct2] a
    by (simp add: Let_def three_handlers_def n del: subscribe_fields)
  show ?thesis using c a t1 t3 by blast
qed


end
